theory Spec2Isabelle
  imports Main "HOL-Library.Char_ord"
begin

section \<open>Data model\<close>

text \<open>
  A Go \<^verbatim>\<open>byte\<close> is a \<^typ>\<open>char\<close> (eight bits, ordered by its numeric value through
  \<open>Char_ord\<close>); a \<^verbatim>\<open>[]byte\<close> and a Go \<^verbatim>\<open>string\<close> are both \<^typ>\<open>char list\<close>.
  Cursors, positions and lengths are Go \<^verbatim>\<open>int\<close>s, 64 bits wide in two's complement.
  They are modelled as \<^typ>\<open>int\<close>, and every addition that the table of operators and
  the report writers perform is wrapped to 64 bits (\<open>goAdd\<close> below).

  The alignment record comes from the external SAM reader. The model keeps the fields the
  code reads: \<open>Name\<close>, \<open>Pos\<close> (0-based, negative when unmapped), \<open>Seq\<close> (the result of
  \<^verbatim>\<open>samLine.Seq.Expand()\<close>, a slice whose capacity equals its length) and \<open>Cigar\<close>, each
  operator given as the pair of \<^verbatim>\<open>op.Type().String()\<close> and \<^verbatim>\<open>op.Len()\<close>.
\<close>

type_synonym bytes = "char list"

record Record =
  Name :: string
  Pos :: int
  Seq :: bytes
  Cigar :: "(string \<times> int) list"

text \<open>\<^verbatim>\<open>errors.New(msg)\<close>: an error value that the code returns or sends.\<close>

datatype error = ErrorsNew string

text \<open>The run-time panics that the modelled code can raise.\<close>

datatype panic =
  SliceBoundsOutOfRange
  | MakeSliceLenOutOfRange
  | NilFuncCall
  | IndexOutOfRange

section \<open>Go primitives\<close>

text \<open>
  The values of a Go \<^verbatim>\<open>int\<close>, the wrap of an integer into that range, and \<^verbatim>\<open>a + b\<close> on
  two Go \<^verbatim>\<open>int\<close>s, which wraps on overflow.
\<close>

definition int64 :: "int \<Rightarrow> bool" where
  "int64 x = (- (2 ^ 63) \<le> x \<and> x < 2 ^ 63)"

definition wrap64 :: "int \<Rightarrow> int" where
  "wrap64 x = (x + 2 ^ 63) mod 2 ^ 64 - 2 ^ 63"

definition goAdd :: "int \<Rightarrow> int \<Rightarrow> int" where
  "goAdd a b = wrap64 (a + b)"

text \<open>
  \<^verbatim>\<open>s[lo:hi]\<close> on a slice whose capacity is its length: Go panics unless
  \<open>0 \<le> lo \<le> hi \<le> len s\<close>.
\<close>

definition slice :: "bytes \<Rightarrow> int \<Rightarrow> int \<Rightarrow> panic + bytes" where
  "slice s lo hi =
     (if 0 \<le> lo \<and> lo \<le> hi \<and> hi \<le> int (length s)
      then Inr (take (nat (hi - lo)) (drop (nat lo) s))
      else Inl SliceBoundsOutOfRange)"

text \<open>\<^verbatim>\<open>make([]byte, n)\<close>: \<open>n\<close> zero bytes; a negative \<open>n\<close> panics.\<close>

definition makeBytes :: "int \<Rightarrow> panic + bytes" where
  "makeBytes n =
     (if n < 0 then Inl MakeSliceLenOutOfRange else Inr (replicate (nat n) (CHR 0x00)))"

text \<open>\<^verbatim>\<open>for i, _ := range xs { xs[i] = c }\<close>\<close>

definition fillBytes :: "char \<Rightarrow> bytes \<Rightarrow> bytes" where
  "fillBytes c xs = foldl (\<lambda>a i. a[i := c]) xs [0..<length xs]"

text \<open>
  \<^verbatim>\<open>gaps := make([]byte, length); for i, _ := range gaps { gaps[i] = '-' }\<close>
  and the two pads of \<open>getOneLine\<close>, which have the same shape.
\<close>

definition makeFilled :: "char \<Rightarrow> int \<Rightarrow> panic + bytes" where
  "makeFilled c n = (case makeBytes n of Inl p \<Rightarrow> Inl p | Inr xs \<Rightarrow> Inr (fillBytes c xs))"

text \<open>
  \<^verbatim>\<open>r, _ := utf8.DecodeRune([]byte{b}); unicode.IsLetter(r)\<close>: a single byte below
  \<open>0x80\<close> decodes to itself and any other single byte to \<open>U+FFFD\<close>, which is not a letter,
  so the test holds exactly for the ASCII letters.
\<close>

definition isLetter :: "char \<Rightarrow> bool" where
  "isLetter b = ((CHR ''A'' \<le> b \<and> b \<le> CHR ''Z'') \<or> (CHR ''a'' \<le> b \<and> b \<le> CHR ''z''))"

section \<open>The operator interpreter (sam.go, getCigarOperationMap)\<close>

text \<open>
  A function literal of the table takes \<open>(query_start, ref_start, length, seq)\<close> and returns
  the two new cursors and the bytes to append, or panics. The source writes nine
  literals; those for \<open>M\<close>, \<open>=\<close>, \<open>X\<close> have the same body, as have those for \<open>I\<close>, \<open>S\<close>, those
  for \<open>D\<close>, \<open>N\<close> and those for \<open>H\<close>, \<open>P\<close>, so the model has four.
\<close>

type_synonym cigar_fn = "int \<Rightarrow> int \<Rightarrow> int \<Rightarrow> bytes \<Rightarrow> panic + (int \<times> int \<times> bytes)"

definition op_match :: cigar_fn where
  "op_match query_start ref_start len seq =
     (case slice seq query_start (goAdd query_start len) of
        Inl p \<Rightarrow> Inl p
      | Inr ext \<Rightarrow> Inr (goAdd query_start len, goAdd ref_start len, ext))"

definition op_query_only :: cigar_fn where
  "op_query_only query_start ref_start len seq = Inr (goAdd query_start len, ref_start, [])"

definition op_gap :: cigar_fn where
  "op_gap query_start ref_start len seq =
     (case makeFilled (CHR ''-'') len of
        Inl p \<Rightarrow> Inl p
      | Inr gaps \<Rightarrow> Inr (query_start, goAdd ref_start len, gaps))"

definition op_none :: cigar_fn where
  "op_none query_start ref_start len seq = Inr (query_start, ref_start, [])"

text \<open>
  The Go map from operator strings to function literals, in the order of the source.
  A key that is absent yields the nil function.
\<close>

definition getCigarOperationMap :: "string \<Rightarrow> cigar_fn option" where
  "getCigarOperationMap = map_of
     [(''M'', op_match),
      (''I'', op_query_only),
      (''D'', op_gap),
      (''N'', op_gap),
      (''S'', op_query_only),
      (''H'', op_none),
      (''P'', op_none),
      (''='', op_match),
      (''X'', op_match)]"

text \<open>\<^verbatim>\<open>lambda_dict[operation](qstart, rstart, size, SEQ)\<close>: calling a nil function panics.\<close>

definition callOp :: "(string \<Rightarrow> cigar_fn option) \<Rightarrow> string \<Rightarrow> cigar_fn" where
  "callOp lambda_dict operation query_start ref_start len seq =
     (case lambda_dict operation of
        None \<Rightarrow> Inl NilFuncCall
      | Some f \<Rightarrow> f query_start ref_start len seq)"

section \<open>The record expander (sam.go, getOneLine)\<close>

text \<open>
  The loop over \<open>CIGAR\<close>: each operator extends \<open>newSeqArray\<close> by the bytes its function
  returns and moves both cursors. A panic inside the loop ends the call.
\<close>

fun getOneLine_loop ::
  "bytes \<Rightarrow> (string \<times> int) list \<Rightarrow> int \<Rightarrow> int \<Rightarrow> bytes \<Rightarrow> panic + bytes" where
  "getOneLine_loop SEQ [] qstart rstart newSeqArray = Inr newSeqArray"
| "getOneLine_loop SEQ ((operation, sz) # CIGAR) qstart rstart newSeqArray =
     (case callOp getCigarOperationMap operation qstart rstart sz SEQ of
        Inl p \<Rightarrow> Inl p
      | Inr (new_qstart, new_rstart, extension) \<Rightarrow>
          getOneLine_loop SEQ CIGAR new_qstart new_rstart (newSeqArray @ extension))"

text \<open>
  The result is either a panic or the pair that Go returns: the bytes and the error
  (\<open>None\<close> for \<^verbatim>\<open>nil\<close>). The difference \<^verbatim>\<open>refLen-len(newSeqArray)\<close> is taken over the integers:
  a Go difference that wraps is a length beyond any allocation, on which \<^verbatim>\<open>make\<close> panics
  as it does on the negative exact value.
\<close>

definition getOneLine :: "Record \<Rightarrow> int \<Rightarrow> panic + (bytes \<times> error option)" where
  "getOneLine samLine refLen =
     (let POS = Pos samLine in
      if POS < 0 then Inr ([], Some (ErrorsNew ''unmapped read''))
      else
        (case makeFilled (CHR ''*'') POS of
           Inl p \<Rightarrow> Inl p
         | Inr leftpad \<Rightarrow>
             (case getOneLine_loop (Seq samLine) (Cigar samLine) 0 POS leftpad of
                Inl p \<Rightarrow> Inl p
              | Inr newSeqArray \<Rightarrow>
                  (case makeFilled (CHR ''*'') (refLen - int (length newSeqArray)) of
                     Inl p \<Rightarrow> Inl p
                   | Inr rightpad \<Rightarrow> Inr (newSeqArray @ rightpad, None)))))"

section \<open>The indel extractor (indels.go, getIndels)\<close>

datatype insOccurrence = InsOccurrence (ins_query: string) (ins_start: int) (ins_seq: string)

datatype delOccurrence = DelOccurrence (del_query: string) (del_start: int) (del_length: int)

text \<open>
  A worker writes to three channels. The model records the sends of one worker in the
  order in which it performs them; every send is taken to be received, so that the worker
  goes on to its next statement.
\<close>

datatype send =
  SendErr error
  | SendIns insOccurrence
  | SendDel delOccurrence

text \<open>
  Modelled from the spec: the four consumption rules of section 4.1, which the table
  below holds. The specification states them over the integers: a rule adds \<open>length\<close> to
  the cursors it consumes, emits the slice of the query sequence (which must lie inside
  the sequence) or \<open>length\<close> gap bytes, or nothing.
\<close>

definition rule_both :: cigar_fn where
  "rule_both query_start ref_start len seq =
     (case slice seq query_start (query_start + len) of
        Inl p \<Rightarrow> Inl p
      | Inr ext \<Rightarrow> Inr (query_start + len, ref_start + len, ext))"

definition rule_query :: cigar_fn where
  "rule_query query_start ref_start len seq = Inr (query_start + len, ref_start, [])"

definition rule_reference :: cigar_fn where
  "rule_reference query_start ref_start len seq =
     (case makeFilled (CHR ''-'') len of
        Inl p \<Rightarrow> Inl p
      | Inr gaps \<Rightarrow> Inr (query_start, ref_start + len, gaps))"

definition rule_neither :: cigar_fn where
  "rule_neither query_start ref_start len seq = Inr (query_start, ref_start, [])"

text \<open>
  Modelled from the spec: \<^verbatim>\<open>getCigarOperationMapNoInsertions\<close>, the operator table that
  \<open>getIndels\<close> looks up and whose source is neither in \<open>sam.go\<close> nor in \<open>indels.go\<close>.
  Section 4.6 of the specification has the indel extractor maintain its cursors
  exactly as in section 4.1, and section 4.1 recognises the nine kinds and no other, so
  the table maps each of the nine kinds to its rule.
\<close>

definition getCigarOperationMapNoInsertions :: "string \<Rightarrow> cigar_fn option" where
  "getCigarOperationMapNoInsertions = map_of
     [(''M'', rule_both),
      (''I'', rule_query),
      (''D'', rule_reference),
      (''N'', rule_reference),
      (''S'', rule_query),
      (''H'', rule_neither),
      (''P'', rule_neither),
      (''='', rule_both),
      (''X'', rule_both)]"

text \<open>
  The loop over \<open>CIGAR\<close> for one record. The result is the list of sends and the panic
  that ended the walk, if any. The insertion is sliced out of \<open>SEQ\<close> before it is sent,
  and both occurrences are sent before the operator's function is called. The slice
  \<^verbatim>\<open>SEQ[qstart:qstart + size]\<close> needs no wrap: a sum beyond the range of a Go \<^verbatim>\<open>int\<close> lies
  beyond the length of every slice, and its wrapped value is negative, so the slice
  expression panics either way.
\<close>

fun getIndels_loop ::
  "(string \<Rightarrow> cigar_fn option) \<Rightarrow> string \<Rightarrow> bytes \<Rightarrow> (string \<times> int) list \<Rightarrow> int \<Rightarrow> int \<Rightarrow>
   send list \<times> panic option" where
  "getIndels_loop lambda_dict QNAME SEQ [] qstart rstart = ([], None)"
| "getIndels_loop lambda_dict QNAME SEQ ((operation, sz) # CIGAR) qstart rstart =
     (case (if operation = ''I''
            then (case slice SEQ qstart (qstart + sz) of
                    Inl p \<Rightarrow> Inl p
                  | Inr b \<Rightarrow> Inr [SendIns (InsOccurrence QNAME rstart b)])
            else Inr []) of
        Inl p \<Rightarrow> ([], Some p)
      | Inr ins \<Rightarrow>
          (let del = (if operation = ''D''
                      then [SendDel (DelOccurrence QNAME rstart sz)] else [])
           in case callOp lambda_dict operation qstart rstart sz SEQ of
                Inl p \<Rightarrow> (ins @ del, Some p)
              | Inr (new_qstart, new_rstart, _) \<Rightarrow>
                  (case getIndels_loop lambda_dict QNAME SEQ CIGAR new_qstart new_rstart of
                     (rest, p) \<Rightarrow> (ins @ del @ rest, p))))"

text \<open>
  The body of \<^verbatim>\<open>for samLine := range(cSR)\<close>. After the send of the error for a negative
  \<open>POS\<close> the source has no \<^verbatim>\<open>continue\<close> or \<^verbatim>\<open>return\<close>: control falls through to the walk.
\<close>

definition getIndels_record ::
  "(string \<Rightarrow> cigar_fn option) \<Rightarrow> Record \<Rightarrow> send list \<times> panic option" where
  "getIndels_record lambda_dict samLine =
     (let QNAME = Name samLine; POS = Pos samLine;
          err = (if POS < 0 then [SendErr (ErrorsNew ''unmapped read'')] else [])
      in case getIndels_loop lambda_dict QNAME (Seq samLine) (Cigar samLine) 0 POS of
           (sent, p) \<Rightarrow> (err @ sent, p))"

text \<open>The worker: the records it takes from \<open>cSR\<close>, one after the other, until a panic.\<close>

fun getIndels :: "Record list \<Rightarrow> send list \<times> panic option" where
  "getIndels [] = ([], None)"
| "getIndels (samLine # cSR) =
     (case getIndels_record getCigarOperationMapNoInsertions samLine of
        (sent, Some p) \<Rightarrow> (sent, Some p)
      | (sent, None) \<Rightarrow> (case getIndels cSR of (rest, p) \<Rightarrow> (sent @ rest, p)))"

section \<open>The consensus resolver (sam.go, getSetFromSlice to getSeqFromBlock)\<close>

text \<open>
  \<^verbatim>\<open>for key, value := range m\<close> visits every key of a Go map once, in an order that the
  language leaves open. The model takes the order as an argument: a list that enumerates
  the keys of the map without repetition.
\<close>

definition range_order :: "('k \<rightharpoonup> 'v) \<Rightarrow> 'k list \<Rightarrow> bool" where
  "range_order m keys = (distinct keys \<and> set keys = dom m)"

text \<open>\<^verbatim>\<open>m := make(map[byte]bool); for _, b := range s { m[b] = true }\<close>\<close>

definition site_map :: "bytes \<Rightarrow> (char \<rightharpoonup> bool)" where
  "site_map s = foldl (\<lambda>m b. m(b \<mapsto> True)) Map.empty s"

definition getSetFromSlice :: "char list \<Rightarrow> bytes \<Rightarrow> bytes" where
  "getSetFromSlice keys s =
     (let m = site_map s
      in foldl (\<lambda>s_out key. if m key = Some True then s_out @ [key] else s_out) [] keys)"

text \<open>
  The first loop counts the letters of the set; the second keeps the largest byte, with
  the index of the element to recognise the first one.
\<close>

definition getNucFromSite :: "char list \<Rightarrow> bytes \<Rightarrow> char" where
  "getNucFromSite keys s =
     (let ss = getSetFromSlice keys s;
          check = foldl (\<lambda>check e. if isLetter e then check + 1 else check) (0 :: int) ss
      in if check > 1 then CHR ''N''
         else snd (foldl (\<lambda>(i, m) e. (i + 1, if i = 0 \<or> e > m then e else m))
                     (0 :: nat, CHR 0x00) ss))"

text \<open>
  The inner loop of \<open>checkAndGetFlattenedSeq\<close> for column \<open>j\<close>: \<^verbatim>\<open>site[i] = block[i][j]\<close> for
  every row, which panics on a row shorter than the first. The buffer \<open>site\<close> is
  overwritten in full for every column.
\<close>

definition getSite :: "bytes list \<Rightarrow> nat \<Rightarrow> panic + bytes" where
  "getSite block j =
     foldl (\<lambda>acc row. case acc of
                Inl p \<Rightarrow> Inl p
              | Inr site \<Rightarrow> if j < length row then Inr (site @ [row ! j])
                            else Inl IndexOutOfRange)
       (Inr []) block"

text \<open>The argument \<open>keyss j\<close> is the order in which the set of column \<open>j\<close> is enumerated.\<close>

definition checkAndGetFlattenedSeq :: "(nat \<Rightarrow> char list) \<Rightarrow> bytes list \<Rightarrow> panic + bytes" where
  "checkAndGetFlattenedSeq keyss block =
     (case block of
        [] \<Rightarrow> Inl IndexOutOfRange
      | b0 # _ \<Rightarrow>
          foldl (\<lambda>acc j. case acc of
                     Inl p \<Rightarrow> Inl p
                   | Inr seq \<Rightarrow>
                       (case getSite block j of
                          Inl p \<Rightarrow> Inl p
                        | Inr site \<Rightarrow> Inr (seq[j := getNucFromSite (keyss j) site])))
            (Inr (replicate (length b0) (CHR 0x00))) [0..<length b0])"

text \<open>
  The loop of \<open>getSeqFromBlock\<close> over the records: the expanded lines, or the first
  error that \<open>getOneLine\<close> returns.
\<close>

fun getSeqFromBlock_lines :: "Record list \<Rightarrow> int \<Rightarrow> panic + (error + bytes list)" where
  "getSeqFromBlock_lines [] refLen = Inr (Inr [])"
| "getSeqFromBlock_lines (line # records) refLen =
     (case getOneLine line refLen of
        Inl p \<Rightarrow> Inl p
      | Inr (temp, Some err) \<Rightarrow> Inr (Inl err)
      | Inr (temp, None) \<Rightarrow>
          (case getSeqFromBlock_lines records refLen of
             Inl p \<Rightarrow> Inl p
           | Inr (Inl err) \<Rightarrow> Inr (Inl err)
           | Inr (Inr block) \<Rightarrow> Inr (Inr (temp # block))))"

text \<open>
  \<open>getSeqFromBlock\<close> first allocates one row of \<open>refLen\<close> bytes per record, then expands
  the records, then flattens a block of more than one row and otherwise returns
  \<^verbatim>\<open>block[0]\<close>.
\<close>

definition getSeqFromBlock ::
  "(nat \<Rightarrow> char list) \<Rightarrow> Record list \<Rightarrow> int \<Rightarrow> panic + (bytes \<times> error option)" where
  "getSeqFromBlock keyss records refLen =
     (if records \<noteq> [] \<and> refLen < 0 then Inl MakeSliceLenOutOfRange
      else
        (case getSeqFromBlock_lines records refLen of
           Inl p \<Rightarrow> Inl p
         | Inr (Inl err) \<Rightarrow> Inr ([], Some err)
         | Inr (Inr block) \<Rightarrow>
             if length block > 1
             then (case checkAndGetFlattenedSeq keyss block of
                     Inl p \<Rightarrow> Inl p
                   | Inr seq \<Rightarrow> Inr (seq, None))
             else (case block of
                     [] \<Rightarrow> Inl IndexOutOfRange
                   | b0 # _ \<Rightarrow> Inr (b0, None))))"

section \<open>The query partitioner (sam.go, groupSamRecords)\<close>

text \<open>
  The stream is the list of records that the reader yields before \<^verbatim>\<open>io.EOF\<close>; failures
  of opening and reading the file are outside the model. The state
  of the loop is the block in progress, the flag \<open>first\<close>, the previous name and the
  blocks sent on \<open>chnl\<close> so far.
\<close>

record group_state =
  samLineGroup :: "Record list"
  first :: bool
  previous :: string
  chnl :: "Record list list"

definition groupSamRecords_step :: "group_state \<Rightarrow> Record \<Rightarrow> group_state" where
  "groupSamRecords_step st rec =
     (if first st
      then st\<lparr>samLineGroup := samLineGroup st @ [rec], first := False, previous := Name rec\<rparr>
      else if Name rec \<noteq> previous st
      then st\<lparr>chnl := chnl st @ [samLineGroup st], samLineGroup := [rec],
              previous := Name rec\<rparr>
      else st\<lparr>samLineGroup := samLineGroup st @ [rec], previous := Name rec\<rparr>)"

text \<open>After the loop the block in progress is sent, whatever it holds.\<close>

definition groupSamRecords :: "Record list \<Rightarrow> Record list list" where
  "groupSamRecords stream =
     (let st = foldl groupSamRecords_step
                 \<lparr>samLineGroup = [], first = True, previous = [], chnl = []\<rparr> stream
      in chnl st @ [samLineGroup st])"

section \<open>Boundary normalisation (sam.go, swapInNs and swapInGapsNs)\<close>

text \<open>
  Both functions write into the slice they are given and return it. A \<^verbatim>\<open>range\<close> loop
  reads \<open>L = seq[i]\<close> at the start of iteration \<open>i\<close>.
\<close>

definition swapInNs :: "bytes \<Rightarrow> bytes" where
  "swapInNs seq =
     foldl (\<lambda>seq i. if seq ! i = CHR ''*'' then seq[i := CHR ''N''] else seq)
       seq [0..<length seq]"

text \<open>The first loop of \<open>swapInGapsNs\<close>: \<open>(firstLetter, firstLetterIndx, lastLetterIndx)\<close>.\<close>

definition letterBounds :: "bytes \<Rightarrow> bool \<times> nat \<times> nat" where
  "letterBounds seq =
     foldl (\<lambda>(firstLetter, firstLetterIndx, lastLetterIndx) i.
              if isLetter (seq ! i)
              then (False, if firstLetter then i else firstLetterIndx, i)
              else (firstLetter, firstLetterIndx, lastLetterIndx))
       (True, 0, 0) [0..<length seq]"

definition swapInGapsNs_step :: "nat \<Rightarrow> nat \<Rightarrow> bytes \<Rightarrow> nat \<Rightarrow> bytes" where
  "swapInGapsNs_step firstLetterIndx lastLetterIndx seq i =
     (let L = seq ! i;
          seq1 = (if i < firstLetterIndx \<and> L = CHR ''*'' then seq[i := CHR ''-''] else seq);
          seq2 = (if i > firstLetterIndx \<and> i < lastLetterIndx \<and> L = CHR ''*''
                  then seq1[i := CHR ''N''] else seq1)
      in if i > lastLetterIndx \<and> L = CHR ''*'' then seq2[i := CHR ''-''] else seq2)"

definition swapInGapsNs :: "bytes \<Rightarrow> bytes" where
  "swapInGapsNs seq =
     (case letterBounds seq of
        (firstLetter, firstLetterIndx, lastLetterIndx) \<Rightarrow>
          foldl (swapInGapsNs_step firstLetterIndx lastLetterIndx) seq [0..<length seq])"

section \<open>The report writer (indels.go, writeInsMap and writeDelMap)\<close>

text \<open>\<^verbatim>\<open>strings.Join(elems, sep)\<close>\<close>

fun Join :: "string list \<Rightarrow> string \<Rightarrow> string" where
  "Join [] sep = []"
| "Join [x] sep = x"
| "Join (x # y # ys) sep = x @ sep @ Join (y # ys) sep"

text \<open>\<^verbatim>\<open>strconv.Itoa(i)\<close>: the decimal digits, after a minus sign for a negative number.\<close>

definition digitChar :: "nat \<Rightarrow> char" where
  "digitChar d = ''0123456789'' ! d"

function showNat :: "nat \<Rightarrow> string" where
  "showNat n = (if n < 10 then [digitChar n] else showNat (n div 10) @ [digitChar (n mod 10)])"
  by pat_completeness auto
termination
  by (relation "measure id") auto

definition Itoa :: "int \<Rightarrow> string" where
  "Itoa i = (if i < 0 then CHR ''-'' # showNat (nat (- i)) else showNat (nat i))"

text \<open>The escapes \<^verbatim>\<open>\t\<close> and \<^verbatim>\<open>\n\<close> of the Go string literals.\<close>

definition tab :: string where
  "tab = [CHR 0x09]"

definition newline :: string where
  "newline = [CHR 0x0A]"

text \<open>
  \<^verbatim>\<open>m[k][v]\<close> on a two-level Go map: an absent key yields the nil map or the nil slice,
  which behave as the empty ones.
\<close>

definition names_at :: "(int \<rightharpoonup> ('v \<rightharpoonup> string list)) \<Rightarrow> int \<Rightarrow> 'v \<Rightarrow> string list" where
  "names_at m k v =
     (case m k of
        None \<Rightarrow> []
      | Some inner \<Rightarrow> (case inner v of None \<Rightarrow> [] | Some names \<Rightarrow> names))"

text \<open>
  The writers, on the path on which \<^verbatim>\<open>os.Create\<close> and every \<^verbatim>\<open>WriteString\<close> succeed: the
  result is the list of the strings written to the file, in order. The two \<^verbatim>\<open>range\<close> loops
  over Go maps take their orders as arguments: \<open>korder\<close> for the keys of the outer map,
  and \<open>vorder k\<close> for the keys of the inner map at \<open>k\<close>. The collected keys go through
  \<^verbatim>\<open>sort.Ints\<close>. The sum \<^verbatim>\<open>k + 1\<close> is a sum of Go \<^verbatim>\<open>int\<close>s and wraps at the largest one.
\<close>

definition writeInsMap ::
  "(int \<rightharpoonup> (string \<rightharpoonup> string list)) \<Rightarrow> int list \<Rightarrow> (int \<Rightarrow> string list) \<Rightarrow> int
   \<Rightarrow> string list" where
  "writeInsMap insmap korder vorder threshold =
     (let keys = sort (foldl (\<lambda>keys k. keys @ [k]) [] korder)
      in foldl (\<lambda>written k.
            foldl (\<lambda>written v.
                if int (length (names_at insmap k v)) < threshold then written
                else (let c1 = Itoa (goAdd k 1); c2 = v; c3 = Join (names_at insmap k v) ''|''
                      in written @ [c1 @ tab @ c2 @ tab @ c3 @ newline]))
              written (vorder k))
           [''ref_start'' @ tab @ ''insertion'' @ tab @ ''samples'' @ newline] keys)"

definition writeDelMap ::
  "(int \<rightharpoonup> (int \<rightharpoonup> string list)) \<Rightarrow> int list \<Rightarrow> (int \<Rightarrow> int list) \<Rightarrow> int
   \<Rightarrow> string list" where
  "writeDelMap delmap korder vorder threshold =
     (let keys = sort (foldl (\<lambda>keys k. keys @ [k]) [] korder)
      in foldl (\<lambda>written k.
            foldl (\<lambda>written v.
                if int (length (names_at delmap k v)) < threshold then written
                else (let c1 = Itoa (goAdd k 1); c2 = Itoa v; c3 = Join (names_at delmap k v) ''|''
                      in written @ [c1 @ tab @ c2 @ tab @ c3 @ newline]))
              written (vorder k))
           [''ref_start'' @ tab @ ''length'' @ tab @ ''samples'' @ newline] keys)"

section \<open>The consumption rules in the words of the specification\<close>

text \<open>
  The nine operator kinds, which of them consume the query and which the reference, and
  what each emits into the reference-aligned view. These definitions follow the
  specification; the theorems compare the code with them.
\<close>

definition recognized :: "string set" where
  "recognized = {''M'', ''I'', ''D'', ''N'', ''S'', ''H'', ''P'', ''='', ''X''}"

definition consumesQuery :: "string \<Rightarrow> bool" where
  "consumesQuery k = (k \<in> {''M'', ''='', ''X'', ''I'', ''S''})"

definition consumesRef :: "string \<Rightarrow> bool" where
  "consumesRef k = (k \<in> {''M'', ''='', ''X'', ''D'', ''N''})"

fun querySpan :: "(string \<times> int) list \<Rightarrow> int" where
  "querySpan [] = 0"
| "querySpan ((k, n) # ops) = (if consumesQuery k then n else 0) + querySpan ops"

fun refSpan :: "(string \<times> int) list \<Rightarrow> int" where
  "refSpan [] = 0"
| "refSpan ((k, n) # ops) = (if consumesRef k then n else 0) + refSpan ops"

definition emission :: "bytes \<Rightarrow> int \<Rightarrow> string \<Rightarrow> int \<Rightarrow> bytes" where
  "emission S q k n =
     (if k \<in> {''M'', ''='', ''X''} then take (nat n) (drop (nat q) S)
      else if k \<in> {''D'', ''N''} then replicate (nat n) (CHR ''-'')
      else [])"

fun emissions :: "bytes \<Rightarrow> int \<Rightarrow> (string \<times> int) list \<Rightarrow> bytes" where
  "emissions S q [] = []"
| "emissions S q ((k, n) # ops) =
     emission S q k n @ emissions S (if consumesQuery k then q + n else q) ops"

definition wellFormedOps :: "(string \<times> int) list \<Rightarrow> bool" where
  "wellFormedOps ops = (\<forall>(k, n) \<in> set ops. k \<in> recognized \<and> 0 \<le> n)"


text \<open>
  What the two normalisation passes do to one byte: the total pass, and the
  boundary-aware pass at index \<open>i\<close> of a sequence whose first letter is at \<open>f\<close> and whose
  last letter is at \<open>l\<close>.
\<close>

definition starToN :: "char \<Rightarrow> char" where
  "starToN c = (if c = CHR ''*'' then CHR ''N'' else c)"

definition gapOrN :: "nat \<Rightarrow> nat \<Rightarrow> nat \<Rightarrow> char \<Rightarrow> char" where
  "gapOrN f l i c =
     (if c = CHR ''*'' then (if i < f \<or> l < i then CHR ''-'' else if f < i \<and> i < l then CHR ''N'' else c)
      else c)"

text \<open>
  The invariant of the query partitioner in the words of the specification: a block is
  non-empty and all its records carry one query name.
\<close>

definition oneQueryBlock :: "Record list \<Rightarrow> bool" where
  "oneQueryBlock b = (b \<noteq> [] \<and> (\<forall>x \<in> set b. Name x = Name (hd b)))"

text \<open>
  The loop invariant of \<open>groupSamRecords\<close> once a record has been read: the block in
  progress and the blocks already sent are one-query blocks, together they are the
  records read so far, and neighbouring blocks differ in their query name.
\<close>

definition group_inv :: "Record list \<Rightarrow> group_state \<Rightarrow> bool" where
  "group_inv xs st =
     (\<not> first st \<and> oneQueryBlock (samLineGroup st)
      \<and> previous st = Name (hd (samLineGroup st))
      \<and> concat (chnl st) @ samLineGroup st = xs
      \<and> (\<forall>b \<in> set (chnl st). oneQueryBlock b)
      \<and> distinct_adj (map (\<lambda>b. Name (hd b)) (chnl st @ [samLineGroup st])))"

text \<open>
  The report in the words of the specification: the header rows, the format of a row for
  an entry \<open>(primaryKey, secondaryKey, names)\<close>, and the entries of a map that reach the
  threshold.
\<close>

definition insHeader :: string where
  "insHeader = ''ref_start'' @ tab @ ''insertion'' @ tab @ ''samples'' @ newline"

definition delHeader :: string where
  "delHeader = ''ref_start'' @ tab @ ''length'' @ tab @ ''samples'' @ newline"

definition reportRow :: "('v \<Rightarrow> string) \<Rightarrow> int \<times> 'v \<times> string list \<Rightarrow> string" where
  "reportRow fmt = (\<lambda>(k, v, names). Itoa (k + 1) @ tab @ fmt v @ tab @ Join names ''|'' @ newline)"

text \<open>The row as the writers compose it, with the sum of Go \<^verbatim>\<open>int\<close>s.\<close>

definition writtenRow :: "('v \<Rightarrow> string) \<Rightarrow> int \<times> 'v \<times> string list \<Rightarrow> string" where
  "writtenRow fmt =
     (\<lambda>(k, v, names). Itoa (goAdd k 1) @ tab @ fmt v @ tab @ Join names ''|'' @ newline)"

definition reportEntries ::
  "(int \<rightharpoonup> ('v \<rightharpoonup> string list)) \<Rightarrow> int \<Rightarrow> (int \<times> 'v \<times> string list) set" where
  "reportEntries m threshold =
     {(k, v, names). \<exists>inner. m k = Some inner \<and> inner v = Some names
        \<and> threshold \<le> int (length names)}"

text \<open>
  The primary keys for which the one-based coordinate \<open>key + 1\<close> is a Go \<^verbatim>\<open>int\<close>: every
  Go \<^verbatim>\<open>int\<close> but the largest.
\<close>

definition keysBelowMax :: "(int \<rightharpoonup> 'a) \<Rightarrow> bool" where
  "keysBelowMax m = (\<forall>k \<in> dom m. int64 k \<and> int64 (k + 1))"

text \<open>The two range orders of a writer are enumerations of the keys of the maps.\<close>

definition range_orders ::
  "(int \<rightharpoonup> ('v \<rightharpoonup> string list)) \<Rightarrow> int list \<Rightarrow> (int \<Rightarrow> 'v list) \<Rightarrow> bool" where
  "range_orders m korder vorder =
     (range_order m korder \<and> (\<forall>k inner. m k = Some inner \<longrightarrow> range_order inner (vorder k)))"

text \<open>
  The entries that the nested loops of a writer visit and keep, in the order of the loops.
\<close>

definition entriesOf ::
  "(int \<rightharpoonup> ('v \<rightharpoonup> string list)) \<Rightarrow> (int \<Rightarrow> 'v list) \<Rightarrow> int \<Rightarrow> int list
   \<Rightarrow> (int \<times> 'v \<times> string list) list" where
  "entriesOf m vorder threshold keys =
     concat (map (\<lambda>k. map (\<lambda>v. (k, v, names_at m k v))
                   (filter (\<lambda>v. \<not> int (length (names_at m k v)) < threshold) (vorder k))) keys)"

section \<open>Basic facts about the primitives\<close>

lemma fillBytes_prefix:
  "k \<le> length xs \<Longrightarrow>
   foldl (\<lambda>a i. a[i := c]) xs [0..<k] = replicate k c @ drop k xs"
proof (induction k)
  case 0
  then show ?case by simp
next
  case (Suc k)
  then have "foldl (\<lambda>a i. a[i := c]) xs [0..<Suc k] = (replicate k c @ drop k xs)[k := c]"
    by simp
  also have "\<dots> = replicate k c @ (drop k xs)[0 := c]"
    by (simp add: list_update_append)
  also have "(drop k xs)[0 := c] = c # drop (Suc k) xs"
    using Suc.prems by (simp add: Cons_nth_drop_Suc [symmetric])
  finally show ?case by (simp add: replicate_app_Cons_same)
qed

lemma fillBytes_replicate: "fillBytes c xs = replicate (length xs) c"
  by (simp add: fillBytes_def fillBytes_prefix)

lemma makeFilled_eq:
  "makeFilled c n = (if n < 0 then Inl MakeSliceLenOutOfRange else Inr (replicate (nat n) c))"
  by (simp add: makeFilled_def makeBytes_def fillBytes_replicate)

lemma slice_in_range:
  "0 \<le> lo \<Longrightarrow> lo \<le> hi \<Longrightarrow> hi \<le> int (length s) \<Longrightarrow>
   slice s lo hi = Inr (take (nat (hi - lo)) (drop (nat lo) s))"
  by (simp add: slice_def)


lemma wrap64_id: "int64 x \<Longrightarrow> wrap64 x = x"
  by (simp add: int64_def wrap64_def)

lemma goAdd_id: "int64 (a + b) \<Longrightarrow> goAdd a b = a + b"
  by (simp add: goAdd_def wrap64_id)

text \<open>The table of \<open>getCigarOperationMap\<close>, kind by kind.\<close>

lemma callOp_match:
  "k \<in> {''M'', ''='', ''X''} \<Longrightarrow>
   callOp getCigarOperationMap k q r n S =
     (case slice S q (goAdd q n) of
        Inl p \<Rightarrow> Inl p
      | Inr ext \<Rightarrow> Inr (goAdd q n, goAdd r n, ext))"
  by (auto simp: callOp_def getCigarOperationMap_def op_match_def)

lemma callOp_match_in_range:
  assumes "k \<in> {''M'', ''='', ''X''}" and "0 \<le> q" and "0 \<le> n"
    and "q + n \<le> int (length S)" and "int64 (q + n)"
  shows "callOp getCigarOperationMap k q r n S =
           Inr (q + n, goAdd r n, take (nat n) (drop (nat q) S))"
  using assms by (simp add: callOp_match goAdd_id slice_def)

lemma callOp_query_only:
  "k \<in> {''I'', ''S''} \<Longrightarrow> callOp getCigarOperationMap k q r n S = Inr (goAdd q n, r, [])"
  by (auto simp: callOp_def getCigarOperationMap_def op_query_only_def)

lemma callOp_gap:
  "k \<in> {''D'', ''N''} \<Longrightarrow>
   callOp getCigarOperationMap k q r n S =
     (if n < 0 then Inl MakeSliceLenOutOfRange
      else Inr (q, goAdd r n, replicate (nat n) (CHR ''-'')))"
  by (auto simp: callOp_def getCigarOperationMap_def op_gap_def makeFilled_eq)

lemma callOp_none:
  "k \<in> {''H'', ''P''} \<Longrightarrow> callOp getCigarOperationMap k q r n S = Inr (q, r, [])"
  by (auto simp: callOp_def getCigarOperationMap_def op_none_def)

lemma callOp_unrecognized:
  "k \<notin> recognized \<Longrightarrow> callOp getCigarOperationMap k q r n S = Inl NilFuncCall"
  by (simp add: callOp_def getCigarOperationMap_def recognized_def)



lemma ruleOp_reference:
  "k \<in> {''D'', ''N''} \<Longrightarrow>
   callOp getCigarOperationMapNoInsertions k q r n S =
     (if n < 0 then Inl MakeSliceLenOutOfRange
      else Inr (q, r + n, replicate (nat n) (CHR ''-'')))"
  by (auto simp: callOp_def getCigarOperationMapNoInsertions_def rule_reference_def
      makeFilled_eq)


lemma ruleOp_unrecognized:
  "k \<notin> recognized \<Longrightarrow> callOp getCigarOperationMapNoInsertions k q r n S = Inl NilFuncCall"
  by (simp add: callOp_def getCigarOperationMapNoInsertions_def recognized_def)

section \<open>Facts about the consumption rules\<close>

lemma consumes_table:
  "consumesQuery ''M''" "consumesQuery ''=''" "consumesQuery ''X''"
  "consumesQuery ''I''" "consumesQuery ''S''"
  "\<not> consumesQuery ''D''" "\<not> consumesQuery ''N''"
  "\<not> consumesQuery ''H''" "\<not> consumesQuery ''P''"
  "consumesRef ''M''" "consumesRef ''=''" "consumesRef ''X''"
  "\<not> consumesRef ''I''" "\<not> consumesRef ''S''"
  "consumesRef ''D''" "consumesRef ''N''"
  "\<not> consumesRef ''H''" "\<not> consumesRef ''P''"
  by (simp_all add: consumesQuery_def consumesRef_def)

lemma recognized_cases [consumes 1, case_names match ins clip del skip none]:
  assumes "k \<in> recognized"
  obtains "k = ''M'' \<or> k = ''='' \<or> k = ''X''" | "k = ''I''" | "k = ''S''"
    | "k = ''D''" | "k = ''N''" | "k = ''H'' \<or> k = ''P''"
  using assms unfolding recognized_def by blast

lemma match_facts:
  assumes "k = ''M'' \<or> k = ''='' \<or> k = ''X''"
  shows "k \<in> {''M'', ''='', ''X''}" "consumesQuery k" "consumesRef k" "k \<noteq> ''I''" "k \<noteq> ''D''"
  using assms consumes_table by auto

lemma none_facts:
  assumes "k = ''H'' \<or> k = ''P''"
  shows "k \<in> {''H'', ''P''}" "\<not> consumesQuery k" "\<not> consumesRef k" "k \<noteq> ''I''" "k \<noteq> ''D''"
  using assms consumes_table by auto

lemma emission_table:
  "emission S q ''I'' n = []" "emission S q ''S'' n = []"
  "emission S q ''D'' n = replicate (nat n) (CHR ''-'')"
  "emission S q ''N'' n = replicate (nat n) (CHR ''-'')"
  by (simp_all add: emission_def)

lemma querySpan_nonneg: "wellFormedOps ops \<Longrightarrow> 0 \<le> querySpan ops"
  by (induction ops) (auto simp: wellFormedOps_def)

lemma wellFormedOps_Cons:
  "wellFormedOps ((k, n) # ops) \<longleftrightarrow> k \<in> recognized \<and> 0 \<le> n \<and> wellFormedOps ops"
  by (simp add: wellFormedOps_def)

lemma take_drop_length:
  "0 \<le> q \<Longrightarrow> 0 \<le> n \<Longrightarrow> q + n \<le> int (length S) \<Longrightarrow>
   length (take (nat n) (drop (nat q) S)) = nat n"
  by (simp add: min_def) linarith

section \<open>C1: the operator interpreter\<close>

text \<open>
  C1, as stated, fails: the claim promises a result for every application, but the
  function literals for \<open>M\<close>, \<open>=\<close> and \<open>X\<close> evaluate \<^verbatim>\<open>seq[query_start : query_start+length]\<close>,
  which panics when the slice leaves the sequence. Applying \<open>M\<close> with length 5 to the
  two-byte sequence \<open>AC\<close> at query cursor 0 does not return the cursors \<open>(5, 5)\<close>.
\<close>

theorem C1_match_out_of_range_counterexample:
  "callOp getCigarOperationMap ''M'' 0 0 5 ''AC'' = Inl SliceBoundsOutOfRange"
  by (simp add: callOp_match goAdd_id int64_def slice_def)

text \<open>
  The sums of the claim are sums of Go \<^verbatim>\<open>int\<close>s: at the largest query cursor the kind \<open>S\<close>
  with length 1 returns the smallest \<^verbatim>\<open>int\<close>, and the kind \<open>D\<close> does the same to the
  reference cursor.
\<close>

lemma cursor_sum_wraps:
  "callOp getCigarOperationMap ''S'' 9223372036854775807 0 1 S
     = Inr (- 9223372036854775808, 0, [])"
  "callOp getCigarOperationMap ''D'' 0 9223372036854775807 1 S
     = Inr (0, - 9223372036854775808, ''-'')"
  by (simp_all add: callOp_query_only callOp_gap goAdd_def wrap64_def)

text \<open>
  C1, amended: for Go \<^verbatim>\<open>int\<close>s \<open>q\<close>, \<open>r\<close>, \<open>n\<close> and a query sequence \<open>S\<close>, and as long as the
  sums that a kind computes are themselves Go \<^verbatim>\<open>int\<close>s (they wrap to 64 bits otherwise):
  when the slice \<open>S[q..q+n)\<close> lies inside the sequence (\<open>0 \<le> q\<close>, \<open>0 \<le> n\<close>, \<open>q + n \<le> |S|\<close>) the
  kinds \<open>M\<close>, \<open>=\<close>, \<open>X\<close> return the cursors \<open>(q+n, r+n)\<close> and emit that slice; the kinds \<open>I\<close>
  and \<open>S\<close> return \<open>(q+n, r)\<close> and emit nothing; the kinds \<open>D\<close> and \<open>N\<close> with \<open>0 \<le> n\<close> return
  \<open>(q, r+n)\<close> and emit \<open>n\<close> gap bytes; the kinds \<open>H\<close> and \<open>P\<close> always return \<open>(q, r)\<close> and emit
  nothing.
\<close>

theorem C1_cigar_operation_rules:
  "(k \<in> {''M'', ''='', ''X''} \<longrightarrow> 0 \<le> q \<longrightarrow> 0 \<le> n \<longrightarrow> q + n \<le> int (length S) \<longrightarrow>
      int64 (q + n) \<longrightarrow> int64 (r + n) \<longrightarrow>
      callOp getCigarOperationMap k q r n S =
        Inr (q + n, r + n, take (nat n) (drop (nat q) S)))
   \<and> (k \<in> {''I'', ''S''} \<longrightarrow> int64 (q + n) \<longrightarrow>
      callOp getCigarOperationMap k q r n S = Inr (q + n, r, []))
   \<and> (k \<in> {''D'', ''N''} \<longrightarrow> 0 \<le> n \<longrightarrow> int64 (r + n) \<longrightarrow>
      callOp getCigarOperationMap k q r n S = Inr (q, r + n, replicate (nat n) (CHR ''-'')))
   \<and> (k \<in> {''H'', ''P''} \<longrightarrow>
      callOp getCigarOperationMap k q r n S = Inr (q, r, []))"
proof (intro conjI impI)
  assume "k \<in> {''M'', ''='', ''X''}" "0 \<le> q" "0 \<le> n" "q + n \<le> int (length S)"
    "int64 (q + n)" "int64 (r + n)"
  then show "callOp getCigarOperationMap k q r n S =
        Inr (q + n, r + n, take (nat n) (drop (nat q) S))"
    by (simp add: callOp_match_in_range goAdd_id)
next
  assume "k \<in> {''I'', ''S''}" "int64 (q + n)"
  then show "callOp getCigarOperationMap k q r n S = Inr (q + n, r, [])"
    by (simp add: callOp_query_only goAdd_id)
next
  assume "k \<in> {''D'', ''N''}" "0 \<le> n" "int64 (r + n)"
  then show "callOp getCigarOperationMap k q r n S
      = Inr (q, r + n, replicate (nat n) (CHR ''-''))"
    by (simp add: callOp_gap goAdd_id)
next
  assume "k \<in> {''H'', ''P''}"
  then show "callOp getCigarOperationMap k q r n S = Inr (q, r, [])"
    by (rule callOp_none)
qed

theorem C1_cigar_operation_rules_witness:
  "callOp getCigarOperationMap ''M'' 1 7 2 ''ACGT'' = Inr (3, 9, ''CG'')
   \<and> callOp getCigarOperationMap ''S'' 1 7 2 ''ACGT'' = Inr (3, 7, [])
   \<and> callOp getCigarOperationMap ''D'' 1 7 2 ''ACGT'' = Inr (1, 9, ''--'')
   \<and> callOp getCigarOperationMap ''P'' 1 7 2 ''ACGT'' = Inr (1, 7, [])"
  using C1_cigar_operation_rules [of "''M''" 1 2 "''ACGT''" 7]
    C1_cigar_operation_rules [of "''S''" 1 2 "''ACGT''" 7]
    C1_cigar_operation_rules [of "''D''" 1 2 "''ACGT''" 7]
    C1_cigar_operation_rules [of "''P''" 1 2 "''ACGT''" 7]
  by (simp add: numeral_2_eq_2 int64_def)

section \<open>C2: the record expander\<close>

text \<open>
  On a record whose operators are recognised, have non-negative lengths and stay inside
  the query sequence, the loop of \<open>getOneLine\<close> appends exactly the emissions of the
  specification, and they are as long as the reference span of the operators.
\<close>

lemma getOneLine_loop_ok:
  "wellFormedOps ops \<Longrightarrow> 0 \<le> q \<Longrightarrow> q + querySpan ops \<le> int (length S) \<Longrightarrow>
   int64 (int (length S)) \<Longrightarrow>
   getOneLine_loop S ops q r acc = Inr (acc @ emissions S q ops)
   \<and> int (length (emissions S q ops)) = refSpan ops"
proof (induction ops arbitrary: q r acc)
  case Nil
  then show ?case by simp
next
  case (Cons op ops)
  obtain k n where op: "op = (k, n)" by (cases op)
  from Cons.prems(1) op have k: "k \<in> recognized" and n: "0 \<le> n" and wf: "wellFormedOps ops"
    by (simp_all add: wellFormedOps_Cons)
  note q0 = querySpan_nonneg [OF wf]
  note len64 = Cons.prems(4)
  have fits: "int64 (q + n)" if "q + n \<le> int (length S)"
    using that Cons.prems(2) n len64 by (simp add: int64_def)
  from k show ?case
  proof (cases rule: recognized_cases)
    case match
    note match = match_facts [OF match]
    from Cons.prems op match q0 n
    have rng: "0 \<le> q \<and> 0 \<le> n \<and> q + n \<le> int (length S)" by simp
    then have call: "callOp getCigarOperationMap k q r n S
        = Inr (q + n, goAdd r n, take (nat n) (drop (nat q) S))"
      using match(1) fits by (simp add: callOp_match_in_range)
    have ih: "getOneLine_loop S ops (q + n) (goAdd r n) (acc @ take (nat n) (drop (nat q) S))
        = Inr ((acc @ take (nat n) (drop (nat q) S)) @ emissions S (q + n) ops)
       \<and> int (length (emissions S (q + n) ops)) = refSpan ops"
      using Cons.IH [OF wf _ _ len64, of "q + n"] Cons.prems op match n
      by (simp add: add.assoc)
    have len: "length (take (nat n) (drop (nat q) S)) = nat n"
      using rng take_drop_length [of q n S] by blast
    have em: "emission S q k n = take (nat n) (drop (nat q) S)"
      using match by (simp add: emission_def)
    show ?thesis using match ih len n by (simp add: op call em)
  next
    case ins
    note ins = ins consumes_table
    from Cons.prems op ins q0 n have "q + n \<le> int (length S)" by simp
    then have call: "callOp getCigarOperationMap ''I'' q r n S = Inr (q + n, r, [])"
      using fits by (simp add: callOp_query_only goAdd_id)
    have ih: "getOneLine_loop S ops (q + n) r (acc @ [])
        = Inr ((acc @ []) @ emissions S (q + n) ops)
       \<and> int (length (emissions S (q + n) ops)) = refSpan ops"
      using Cons.IH [OF wf _ _ len64, of "q + n"] Cons.prems op ins n
      by (simp add: add.assoc)
    show ?thesis using ins ih by (simp add: op call emission_table)
  next
    case clip
    note clip = clip consumes_table
    from Cons.prems op clip q0 n have "q + n \<le> int (length S)" by simp
    then have call: "callOp getCigarOperationMap ''S'' q r n S = Inr (q + n, r, [])"
      using fits by (simp add: callOp_query_only goAdd_id)
    have ih: "getOneLine_loop S ops (q + n) r (acc @ [])
        = Inr ((acc @ []) @ emissions S (q + n) ops)
       \<and> int (length (emissions S (q + n) ops)) = refSpan ops"
      using Cons.IH [OF wf _ _ len64, of "q + n"] Cons.prems op clip n
      by (simp add: add.assoc)
    show ?thesis using clip ih by (simp add: op call emission_table)
  next
    case del
    note del = del consumes_table
    have ih: "getOneLine_loop S ops q (goAdd r n) (acc @ replicate (nat n) (CHR ''-''))
        = Inr ((acc @ replicate (nat n) (CHR ''-'')) @ emissions S q ops)
       \<and> int (length (emissions S q ops)) = refSpan ops"
      using Cons.IH [OF wf _ _ len64, of q] Cons.prems op del by simp
    show ?thesis using del ih n by (simp add: op callOp_gap emission_table)
  next
    case skip
    note skip = skip consumes_table
    have ih: "getOneLine_loop S ops q (goAdd r n) (acc @ replicate (nat n) (CHR ''-''))
        = Inr ((acc @ replicate (nat n) (CHR ''-'')) @ emissions S q ops)
       \<and> int (length (emissions S q ops)) = refSpan ops"
      using Cons.IH [OF wf _ _ len64, of q] Cons.prems op skip by simp
    show ?thesis using skip ih n by (simp add: op callOp_gap emission_table)
  next
    case none
    note none = none_facts [OF none]
    have ih: "getOneLine_loop S ops q r (acc @ [])
        = Inr ((acc @ []) @ emissions S q ops)
       \<and> int (length (emissions S q ops)) = refSpan ops"
      using Cons.IH [OF wf _ _ len64, of q] Cons.prems op none by simp
    have em: "emission S q k n = []" using none(1) by (auto simp: emission_def)
    show ?thesis using none ih by (simp add: op callOp_none em)
  qed
qed

text \<open>
  Whatever the record, a call of \<open>getOneLine\<close> that returns without error returns exactly
  \<open>refLen\<close> bytes.
\<close>

lemma getOneLine_success_length:
  "getOneLine samLine refLen = Inr (out, None) \<Longrightarrow> int (length out) = refLen"
  by (auto simp: getOneLine_def makeFilled_eq Let_def split: if_splits sum.splits)

text \<open>
  C2, as stated, fails: expansion does not succeed for every record with a non-negative
  start and every reference length. The record at position 0 with operators \<open>[(M, 2)]\<close>
  and sequence \<open>AC\<close> expands to two bytes; with reference length 1 the right pad is
  \<^verbatim>\<open>make([]byte, 1 - 2)\<close>, which panics, so no sequence of length 1 is returned.
\<close>

theorem C2_reference_too_short_counterexample:
  "getOneLine \<lparr>Name = ''q'', Pos = 0, Seq = ''AC'', Cigar = [(''M'', 2)]\<rparr> 1
     = Inl MakeSliceLenOutOfRange"
  by (simp add: getOneLine_def makeFilled_eq callOp_match goAdd_id int64_def slice_def)

text \<open>
  C2, amended: for every alignment record with non-negative referenceStart whose
  operators are all of the nine recognised kinds with non-negative lengths, whose
  query-consuming lengths sum to at most the length of the query sequence (a Go \<^verbatim>\<open>int\<close>,
  as the length of every slice is, so that the query cursor does not wrap), and every
  reference length \<open>L\<close> with referenceStart plus the reference-consuming lengths at most \<open>L\<close>,
  \<open>getOneLine\<close> returns without error a byte sequence of length exactly \<open>L\<close>: referenceStart
  leading \<open>*\<close> bytes, then the concatenated emissions of the operators in order, then \<open>*\<close>
  bytes up to length \<open>L\<close>.
\<close>

theorem C2_getOneLine_expansion:
  assumes "0 \<le> Pos samLine"
    and "wellFormedOps (Cigar samLine)"
    and "querySpan (Cigar samLine) \<le> int (length (Seq samLine))"
    and "Pos samLine + refSpan (Cigar samLine) \<le> L"
    and "int64 (int (length (Seq samLine)))"
  shows "getOneLine samLine L =
           Inr (replicate (nat (Pos samLine)) (CHR ''*'')
                @ emissions (Seq samLine) 0 (Cigar samLine)
                @ replicate (nat (L - Pos samLine - refSpan (Cigar samLine))) (CHR ''*''),
                None)
     \<and> int (length (replicate (nat (Pos samLine)) (CHR ''*'')
                @ emissions (Seq samLine) 0 (Cigar samLine)
                @ replicate (nat (L - Pos samLine - refSpan (Cigar samLine))) (CHR ''*''))) = L"
proof -
  let ?pad = "replicate (nat (Pos samLine)) (CHR ''*'')"
  let ?em = "emissions (Seq samLine) 0 (Cigar samLine)"
  have loop: "getOneLine_loop (Seq samLine) (Cigar samLine) 0 (Pos samLine) ?pad
      = Inr (?pad @ ?em)"
    and len: "int (length ?em) = refSpan (Cigar samLine)"
    using getOneLine_loop_ok [OF assms(2) _ _ assms(5), of 0 "Pos samLine" ?pad] assms(3)
    by simp_all
  have "int (length (?pad @ ?em)) = Pos samLine + refSpan (Cigar samLine)"
    using assms(1) len by simp
  then show ?thesis
    using assms(1,4) loop len
    by (simp add: getOneLine_def makeFilled_eq Let_def)
qed

theorem C2_getOneLine_expansion_witness:
  "getOneLine \<lparr>Name = ''q'', Pos = 2, Seq = ''ACGT'',
       Cigar = [(''S'', 1), (''M'', 2), (''D'', 2), (''I'', 1)]\<rparr> 8
     = Inr (''**CG--**'', None)"
proof -
  let ?r = "\<lparr>Name = ''q'', Pos = 2, Seq = ''ACGT'',
       Cigar = [(''S'', 1), (''M'', 2), (''D'', 2), (''I'', 1)]\<rparr>"
  have wf: "wellFormedOps (Cigar ?r)"
    by (simp add: wellFormedOps_def recognized_def)
  have ql: "querySpan (Cigar ?r) \<le> int (length (Seq ?r))"
    by (simp add: consumes_table)
  have rl: "Pos ?r + refSpan (Cigar ?r) \<le> 8"
    by (simp add: consumes_table)
  have ln: "int64 (int (length (Seq ?r)))"
    by (simp add: int64_def)
  have "0 \<le> Pos ?r" by simp
  from C2_getOneLine_expansion [OF this wf ql rl ln]
  show ?thesis
    by (simp add: consumes_table emission_def numeral_2_eq_2)
qed

section \<open>C4: the indel extractor\<close>





text \<open>
  The same happens in the code of \<open>getIndels\<close> alone, before the table is called: the
  slice of an insertion that leaves the sequence panics, and the deletion after it is
  never sent.
\<close>

lemma insertion_slice_panics:
  "getIndels_record lambda_dict
     \<lparr>Name = ''q'', Pos = 0, Seq = [], Cigar = [(''I'', 1), (''D'', 1)]\<rparr>
     = ([], Some SliceBoundsOutOfRange)"
  by (simp add: getIndels_record_def slice_def)



section \<open>C8: a negative referenceStart in the indel extractor\<close>

text \<open>
  C8 describes what \<open>getOneLine\<close> does and what \<open>getIndels\<close> misses. Both test
  \<^verbatim>\<open>POS < 0\<close> and produce the error \<open>unmapped read\<close>; \<open>getOneLine\<close> returns at once with an
  empty result, while \<open>getIndels\<close> sends the error and then walks the record all the
  same. For the record named \<open>q\<close> at position \<open>-1\<close> with operators \<open>[(D, 1)]\<close> the worker sends
  the error and then the deletion occurrence \<open>(q, -1, 1)\<close>.
\<close>

theorem C8_unmapped_record_still_walked:
  "getIndels_record getCigarOperationMapNoInsertions
     \<lparr>Name = ''q'', Pos = - 1, Seq = ''A'', Cigar = [(''D'', 1)]\<rparr>
     = ([SendErr (ErrorsNew ''unmapped read''), SendDel (DelOccurrence ''q'' (- 1) 1)], None)
   \<and> getOneLine \<lparr>Name = ''q'', Pos = - 1, Seq = ''A'', Cigar = [(''D'', 1)]\<rparr> L
     = Inr ([], Some (ErrorsNew ''unmapped read''))"
  by (simp add: getIndels_record_def ruleOp_reference
      getOneLine_def)

section \<open>C9: unrecognised operators\<close>

lemma getOneLine_loop_unrecognized:
  "(k, n) \<in> set ops \<Longrightarrow> k \<notin> recognized \<Longrightarrow> \<exists>p. getOneLine_loop S ops q r acc = Inl p"
proof (induction ops arbitrary: q r acc)
  case Nil
  then show ?case by simp
next
  case (Cons op ops)
  obtain k' n' where op: "op = (k', n')" by (cases op)
  show ?case
  proof (cases "callOp getCigarOperationMap k' q r n' S")
    case (Inl p)
    then show ?thesis by (simp add: op)
  next
    case (Inr res)
    obtain nq nr ext where res: "res = (nq, nr, ext)" by (cases res)
    from Inr Cons.prems op have "(k, n) \<in> set ops"
      by (auto simp: callOp_unrecognized)
    from Cons.IH [OF this Cons.prems(2)] Inr res show ?thesis by (simp add: op)
  qed
qed

lemma getIndels_loop_unrecognized:
  "(k, n) \<in> set ops \<Longrightarrow> k \<notin> recognized \<Longrightarrow>
   \<exists>sent p. getIndels_loop getCigarOperationMapNoInsertions name S ops q r = (sent, Some p)"
proof (induction ops arbitrary: q r)
  case Nil
  then show ?case by simp
next
  case (Cons op ops)
  obtain k' n' where op: "op = (k', n')" by (cases op)
  show ?case
  proof (cases "callOp getCigarOperationMapNoInsertions k' q r n' S")
    case (Inl p)
    then show ?thesis by (auto simp: op split: sum.splits)
  next
    case (Inr res)
    obtain nq nr ext where res: "res = (nq, nr, ext)" by (cases res)
    from Inr Cons.prems op have "(k, n) \<in> set ops"
      by (auto simp: ruleOp_unrecognized)
    from Cons.IH [OF this Cons.prems(2), of nq nr] obtain sent p
      where "getIndels_loop getCigarOperationMapNoInsertions name S ops nq nr = (sent, Some p)" by blast
    with Inr res show ?thesis by (auto simp: op split: sum.splits)
  qed
qed

text \<open>
  When the walk reaches an operator outside the table the failure is the call of the nil
  function.
\<close>

lemma unrecognized_first_operator:
  assumes "k \<notin> recognized"
  shows "getOneLine_loop S ((k, n) # ops) q r acc = Inl NilFuncCall"
    and "getIndels_loop getCigarOperationMapNoInsertions name S ((k, n) # ops) q r
      = ([], Some NilFuncCall)"
proof -
  from assms have "k \<noteq> ''I''" "k \<noteq> ''D''" by (auto simp: recognized_def)
  then show "getIndels_loop getCigarOperationMapNoInsertions name S ((k, n) # ops) q r
      = ([], Some NilFuncCall)"
    using assms by (simp add: ruleOp_unrecognized)
  show "getOneLine_loop S ((k, n) # ops) q r acc = Inl NilFuncCall"
    using assms by (simp add: callOp_unrecognized)
qed

text \<open>
  C9: a record that contains an operator outside the nine recognised kinds is never
  processed successfully. \<open>getOneLine\<close> ends in a panic (the call of the nil table entry,
  or an earlier panic of the walk) or returns the error for an unmapped read; the walk of
  \<open>getIndels\<close> ends in a panic.
\<close>

theorem C9_unrecognized_operator_fails:
  assumes "(k, n) \<in> set (Cigar samLine)" and "k \<notin> recognized"
  shows "((\<exists>p. getOneLine samLine L = Inl p)
          \<or> getOneLine samLine L = Inr ([], Some (ErrorsNew ''unmapped read'')))
       \<and> (\<exists>sent p. getIndels_record getCigarOperationMapNoInsertions samLine = (sent, Some p))"
proof
  show "(\<exists>p. getOneLine samLine L = Inl p)
          \<or> getOneLine samLine L = Inr ([], Some (ErrorsNew ''unmapped read''))"
  proof (cases "Pos samLine < 0")
    case True
    then show ?thesis by (simp add: getOneLine_def)
  next
    case False
    obtain p where "getOneLine_loop (Seq samLine) (Cigar samLine) 0 (Pos samLine)
        (replicate (nat (Pos samLine)) (CHR ''*'')) = Inl p"
      using getOneLine_loop_unrecognized [OF assms] by blast
    with False show ?thesis by (simp add: getOneLine_def makeFilled_eq)
  qed
  obtain sent p where "getIndels_loop getCigarOperationMapNoInsertions (Name samLine) (Seq samLine)
      (Cigar samLine) 0 (Pos samLine) = (sent, Some p)"
    using getIndels_loop_unrecognized [OF assms] by blast
  then show "\<exists>sent p. getIndels_record getCigarOperationMapNoInsertions samLine = (sent, Some p)"
    by (simp add: getIndels_record_def)
qed

theorem C9_unrecognized_operator_fails_witness:
  "((\<exists>p. getOneLine \<lparr>Name = ''q'', Pos = 0, Seq = ''AC'',
        Cigar = [(''M'', 1), (''B'', 1)]\<rparr> 5 = Inl p)
    \<or> getOneLine \<lparr>Name = ''q'', Pos = 0, Seq = ''AC'',
        Cigar = [(''M'', 1), (''B'', 1)]\<rparr> 5 = Inr ([], Some (ErrorsNew ''unmapped read'')))
   \<and> (\<exists>sent p. getIndels_record getCigarOperationMapNoInsertions
        \<lparr>Name = ''q'', Pos = 0, Seq = ''AC'', Cigar = [(''M'', 1), (''B'', 1)]\<rparr>
        = (sent, Some p))"
proof -
  let ?r = "\<lparr>Name = ''q'', Pos = 0, Seq = ''AC'', Cigar = [(''M'', 1), (''B'', 1)]\<rparr>"
  have a: "(''B'', 1) \<in> set (Cigar ?r)" by simp
  have b: "''B'' \<notin> recognized" by (simp add: recognized_def)
  from C9_unrecognized_operator_fails [OF a b, of 5] show ?thesis .
qed

section \<open>C6 and C10: boundary normalisation\<close>

lemma foldl_pointwise:
  assumes step: "\<And>xs i. i < length xs \<Longrightarrow> step xs i = xs[i := h i (xs ! i)]"
  shows "k \<le> length s \<Longrightarrow>
    foldl step s [0..<k] = map (\<lambda>i. h i (s ! i)) [0..<k] @ drop k s"
proof (induction k)
  case 0
  then show ?case by simp
next
  case (Suc k)
  let ?pre = "map (\<lambda>i. h i (s ! i)) [0..<k]"
  have len: "length ?pre = k" by simp
  from Suc have ih: "foldl step s [0..<k] = ?pre @ drop k s" by simp
  have k: "k < length (?pre @ drop k s)" using Suc.prems by simp
  have nth: "(?pre @ drop k s) ! k = s ! k"
    using Suc.prems by (simp add: nth_append)
  have "foldl step s [0..<Suc k] = step (?pre @ drop k s) k"
    using ih by simp
  also have "\<dots> = (?pre @ drop k s)[k := h k (s ! k)]"
    using step [OF k] nth by simp
  also have "\<dots> = ?pre @ (drop k s)[0 := h k (s ! k)]"
    by (simp add: list_update_append)
  also have "(drop k s)[0 := h k (s ! k)] = h k (s ! k) # drop (Suc k) s"
    using Suc.prems by (simp add: Cons_nth_drop_Suc [symmetric])
  finally show ?case by simp
qed

lemma foldl_pointwise_full:
  assumes "\<And>xs i. i < length xs \<Longrightarrow> step xs i = xs[i := h i (xs ! i)]"
  shows "foldl step s [0..<length s] = map (\<lambda>i. h i (s ! i)) [0..<length s]"
  using foldl_pointwise [where step = step and h = h and k = "length s" and s = s, OF assms]
  by simp

lemma swapInNs_step_update:
  "(if xs ! i = CHR ''*'' then xs[i := CHR ''N''] else xs) = xs[i := starToN (xs ! i)]"
  by (simp add: starToN_def)

lemma swapInNs_map: "swapInNs seq = map starToN seq"
proof -
  have "swapInNs seq = map (\<lambda>i. starToN (seq ! i)) [0..<length seq]"
    unfolding swapInNs_def
    by (rule foldl_pointwise_full
          [where step = "\<lambda>seq i. if seq ! i = CHR ''*'' then seq[i := CHR ''N''] else seq"
             and h = "\<lambda>i. starToN"])
       (rule swapInNs_step_update)
  also have "\<dots> = map starToN (map ((!) seq) [0..<length seq])"
    by (simp only: map_map comp_def)
  finally show ?thesis by (simp only: map_nth)
qed

lemma list_update_same: "xs ! i = c \<Longrightarrow> xs[i := c] = xs"
  by auto

lemma swapInGapsNs_step_update:
  "swapInGapsNs_step f l xs i = xs[i := gapOrN f l i (xs ! i)]"
  by (auto simp: swapInGapsNs_step_def gapOrN_def Let_def list_update_same)

lemma swapInGapsNs_fold:
  "foldl (swapInGapsNs_step f l) seq [0..<length seq]
     = map (\<lambda>i. gapOrN f l i (seq ! i)) [0..<length seq]"
  by (rule foldl_pointwise_full [where step = "swapInGapsNs_step f l" and h = "gapOrN f l"])
     (rule swapInGapsNs_step_update)

lemma letterBounds_prefix:
  "k \<le> length seq \<Longrightarrow>
   (case foldl (\<lambda>(firstLetter, firstLetterIndx, lastLetterIndx) i.
              if isLetter (seq ! i)
              then (False, if firstLetter then i else firstLetterIndx, i)
              else (firstLetter, firstLetterIndx, lastLetterIndx))
       (True, 0, 0) [0..<k] of
      (fl, fi, li) \<Rightarrow>
        (fl \<longrightarrow> fi = 0 \<and> li = 0 \<and> (\<forall>j<k. \<not> isLetter (seq ! j)))
        \<and> (\<not> fl \<longrightarrow> fi < k \<and> isLetter (seq ! fi) \<and> (\<forall>j<fi. \<not> isLetter (seq ! j))
              \<and> li < k \<and> isLetter (seq ! li) \<and> (\<forall>j. li < j \<and> j < k \<longrightarrow> \<not> isLetter (seq ! j))))"
proof (induction k)
  case 0
  then show ?case by simp
next
  case (Suc k)
  then show ?case
    by (auto simp: less_Suc_eq split: prod.splits if_splits)
qed

lemma letterBounds_eq:
  assumes "f < length seq" "isLetter (seq ! f)" "\<forall>j<f. \<not> isLetter (seq ! j)"
    and "l < length seq" "isLetter (seq ! l)" "\<forall>j. l < j \<and> j < length seq \<longrightarrow> \<not> isLetter (seq ! j)"
  shows "letterBounds seq = (False, f, l)"
proof -
  obtain fl fi li where lb: "letterBounds seq = (fl, fi, li)" by (cases "letterBounds seq")
  from letterBounds_prefix [of "length seq" seq] lb
  have inv: "(fl \<longrightarrow> (\<forall>j<length seq. \<not> isLetter (seq ! j)))"
    "\<not> fl \<longrightarrow> fi < length seq \<and> isLetter (seq ! fi) \<and> (\<forall>j<fi. \<not> isLetter (seq ! j))
              \<and> li < length seq \<and> isLetter (seq ! li) \<and> (\<forall>j. li < j \<and> j < length seq \<longrightarrow> \<not> isLetter (seq ! j))"
    by (simp_all add: letterBounds_def)
  from inv(1) assms(1,2) have nfl: "\<not> fl" by blast
  with inv(2) have fi: "fi < length seq" "isLetter (seq ! fi)" "\<forall>j<fi. \<not> isLetter (seq ! j)"
    and li: "li < length seq" "isLetter (seq ! li)" "\<forall>j. li < j \<and> j < length seq \<longrightarrow> \<not> isLetter (seq ! j)"
    by blast+
  have "fi = f" using fi assms(1-3) by (meson nat_neq_iff)
  moreover have "li = l" using li assms(4-6) by (meson nat_neq_iff)
  ultimately show ?thesis using lb nfl by simp
qed

lemma swapInGapsNs_length: "length (swapInGapsNs seq) = length seq"
  by (simp add: swapInGapsNs_def swapInGapsNs_fold split: prod.splits)

lemma swapInGapsNs_nth:
  "i < length seq \<Longrightarrow>
   swapInGapsNs seq ! i = gapOrN (fst (snd (letterBounds seq))) (snd (snd (letterBounds seq))) i (seq ! i)"
  by (simp add: swapInGapsNs_def swapInGapsNs_fold split: prod.splits)

lemma isLetter_examples:
  "isLetter (CHR ''A'')" "isLetter (CHR ''C'')" "\<not> isLetter (CHR ''*'')" "\<not> isLetter (CHR ''-'')"
  by (simp_all add: isLetter_def)

lemma swapInGapsNs_example: "swapInGapsNs ''**AC**'' = ''--AC--''"
proof -
  have "letterBounds ''**AC**'' = (False, 2, 3)"
    by (rule letterBounds_eq) (auto simp: isLetter_examples less_Suc_eq eval_nat_numeral)
  then have "swapInGapsNs ''**AC**''
      = map (\<lambda>i. gapOrN 2 3 i (''**AC**'' ! i)) [0..<length ''**AC**'']"
    by (simp only: swapInGapsNs_def swapInGapsNs_fold prod.case)
  also have "\<dots> = ''--AC--''"
    by (simp add: gapOrN_def upt_rec [of 0] upt_rec [of "Suc _"] eval_nat_numeral)
  finally show ?thesis .
qed

text \<open>
  C6: \<open>swapInNs\<close> replaces every \<open>*\<close> by \<open>N\<close> and leaves every other byte. When the
  sequence holds a letter, with the first letter at index \<open>f\<close> and the last at index \<open>l\<close>,
  \<open>swapInGapsNs\<close> turns a \<open>*\<close> strictly before \<open>f\<close> or strictly after \<open>l\<close> into \<open>-\<close>, a \<open>*\<close>
  strictly between \<open>f\<close> and \<open>l\<close> into \<open>N\<close>, and leaves every other position. In particular
  it maps \<open>**AC**\<close> to \<open>--AC--\<close>.
\<close>

theorem C6_normalization_passes:
  "swapInNs seq = map (\<lambda>c. if c = CHR ''*'' then CHR ''N'' else c) seq
   \<and> (f < length seq \<longrightarrow> isLetter (seq ! f) \<longrightarrow> (\<forall>j<f. \<not> isLetter (seq ! j)) \<longrightarrow>
      l < length seq \<longrightarrow> isLetter (seq ! l) \<longrightarrow>
      (\<forall>j. l < j \<and> j < length seq \<longrightarrow> \<not> isLetter (seq ! j)) \<longrightarrow>
      length (swapInGapsNs seq) = length seq
      \<and> (\<forall>i<length seq.
           swapInGapsNs seq ! i =
             (if seq ! i = CHR ''*'' \<and> (i < f \<or> l < i) then CHR ''-''
              else if seq ! i = CHR ''*'' \<and> f < i \<and> i < l then CHR ''N''
              else seq ! i)))
   \<and> swapInGapsNs ''**AC**'' = ''--AC--''"
proof (intro conjI impI)
  show "swapInNs seq = map (\<lambda>c. if c = CHR ''*'' then CHR ''N'' else c) seq"
    by (simp add: swapInNs_map starToN_def)
next
  assume "f < length seq" "isLetter (seq ! f)" "\<forall>j<f. \<not> isLetter (seq ! j)"
    "l < length seq" "isLetter (seq ! l)" "\<forall>j. l < j \<and> j < length seq \<longrightarrow> \<not> isLetter (seq ! j)"
  then show "length (swapInGapsNs seq) = length seq" by (simp add: swapInGapsNs_length)
next
  assume "f < length seq" "isLetter (seq ! f)" "\<forall>j<f. \<not> isLetter (seq ! j)"
    "l < length seq" "isLetter (seq ! l)" "\<forall>j. l < j \<and> j < length seq \<longrightarrow> \<not> isLetter (seq ! j)"
  then have "letterBounds seq = (False, f, l)" by (rule letterBounds_eq)
  then show "\<forall>i<length seq.
           swapInGapsNs seq ! i =
             (if seq ! i = CHR ''*'' \<and> (i < f \<or> l < i) then CHR ''-''
              else if seq ! i = CHR ''*'' \<and> f < i \<and> i < l then CHR ''N''
              else seq ! i)"
    by (simp add: swapInGapsNs_nth gapOrN_def)
next
  show "swapInGapsNs ''**AC**'' = ''--AC--''"
    by (rule swapInGapsNs_example)
qed

theorem C6_normalization_passes_witness:
  "swapInNs ''*A*C*'' = ''NANCN''
   \<and> length (swapInGapsNs ''*A*C*'') = 5
   \<and> swapInGapsNs ''*A*C*'' ! 0 = CHR ''-''
   \<and> swapInGapsNs ''*A*C*'' ! 1 = CHR ''A''
   \<and> swapInGapsNs ''*A*C*'' ! 2 = CHR ''N''
   \<and> swapInGapsNs ''*A*C*'' ! 3 = CHR ''C''
   \<and> swapInGapsNs ''*A*C*'' ! 4 = CHR ''-''"
proof -
  let ?s = "''*A*C*''"
  have f: "1 < length ?s" "isLetter (?s ! 1)" "\<forall>j<1. \<not> isLetter (?s ! j)"
    by (simp_all add: isLetter_examples)
  have l: "3 < length ?s" "isLetter (?s ! 3)"
    "\<forall>j. 3 < j \<and> j < length ?s \<longrightarrow> \<not> isLetter (?s ! j)"
    by (auto simp: isLetter_examples less_Suc_eq eval_nat_numeral)
  from C6_normalization_passes [of ?s 1 3] f l
  have a: "swapInNs ?s = map (\<lambda>c. if c = CHR ''*'' then CHR ''N'' else c) ?s"
    and b: "length (swapInGapsNs ?s) = length ?s"
    and c: "\<forall>i<length ?s. swapInGapsNs ?s ! i =
             (if ?s ! i = CHR ''*'' \<and> (i < 1 \<or> 3 < i) then CHR ''-''
              else if ?s ! i = CHR ''*'' \<and> 1 < i \<and> i < 3 then CHR ''N''
              else ?s ! i)"
    by blast+
  have "0 < length ?s" "1 < length ?s" "2 < length ?s" "3 < length ?s" "4 < length ?s"
    by simp_all
  from this [THEN c [rule_format]] a b show ?thesis
    by (simp add: eval_nat_numeral)
qed

text \<open>
  C10: each of the two passes returns a sequence of the same length in which every
  position that did not hold \<open>*\<close> keeps its byte; a position that held \<open>*\<close> holds \<open>N\<close>
  after \<open>swapInNs\<close> and \<open>*\<close>, \<open>N\<close> or \<open>-\<close> after \<open>swapInGapsNs\<close>.
\<close>

theorem C10_only_placeholders_rewritten:
  "length (swapInNs seq) = length seq
   \<and> length (swapInGapsNs seq) = length seq
   \<and> (\<forall>i<length seq. seq ! i \<noteq> CHR ''*'' \<longrightarrow>
        swapInNs seq ! i = seq ! i \<and> swapInGapsNs seq ! i = seq ! i)
   \<and> (\<forall>i<length seq. seq ! i = CHR ''*'' \<longrightarrow>
        swapInNs seq ! i = CHR ''N''
        \<and> swapInGapsNs seq ! i \<in> {CHR ''*'', CHR ''N'', CHR ''-''})"
  by (simp add: swapInNs_map starToN_def swapInGapsNs_length swapInGapsNs_nth gapOrN_def)

theorem C10_only_placeholders_rewritten_witness:
  "length (swapInNs ''*A-*c'') = 5
   \<and> length (swapInGapsNs ''*A-*c'') = 5
   \<and> swapInNs ''*A-*c'' ! 1 = CHR ''A''
   \<and> swapInGapsNs ''*A-*c'' ! 2 = CHR ''-''
   \<and> swapInNs ''*A-*c'' ! 3 = CHR ''N''"
proof -
  let ?s = "''*A-*c''"
  from C10_only_placeholders_rewritten [of ?s]
  have a: "length (swapInNs ?s) = length ?s" "length (swapInGapsNs ?s) = length ?s"
    and b: "\<forall>i<length ?s. ?s ! i \<noteq> CHR ''*'' \<longrightarrow>
        swapInNs ?s ! i = ?s ! i \<and> swapInGapsNs ?s ! i = ?s ! i"
    and c: "\<forall>i<length ?s. ?s ! i = CHR ''*'' \<longrightarrow>
        swapInNs ?s ! i = CHR ''N''
        \<and> swapInGapsNs ?s ! i \<in> {CHR ''*'', CHR ''N'', CHR ''-''}"
    by blast+
  have "swapInNs ?s ! 1 = ?s ! 1" using b [rule_format, of 1] by simp
  moreover have "swapInGapsNs ?s ! 2 = ?s ! 2" using b [rule_format, of 2] by simp
  moreover have "swapInNs ?s ! 3 = CHR ''N''" using c [rule_format, of 3] by (simp add: eval_nat_numeral)
  ultimately show ?thesis using a by (simp add: eval_nat_numeral)
qed

section \<open>C3: the consensus byte of a column\<close>

lemma site_map_eq: "site_map s = (\<lambda>b. if b \<in> set s then Some True else None)"
proof -
  have "foldl (\<lambda>m b. m(b \<mapsto> True)) m0 s = (\<lambda>b. if b \<in> set s then Some True else m0 b)" for m0
    by (induction s arbitrary: m0) (auto simp: fun_eq_iff)
  then show ?thesis by (simp add: site_map_def)
qed

lemma dom_site_map: "dom (site_map s) = set s"
  by (auto simp: site_map_eq dom_def split: if_splits)

lemma foldl_append_if:
  "foldl (\<lambda>s_out key. if P key then s_out @ [key] else s_out) acc keys = acc @ filter P keys"
  by (induction keys arbitrary: acc) auto

lemma getSetFromSlice_eq:
  "range_order (site_map s) keys \<Longrightarrow> getSetFromSlice keys s = keys"
proof -
  assume ro: "range_order (site_map s) keys"
  then have "set keys = set s"
    by (simp add: range_order_def dom_site_map)
  then have "\<forall>k \<in> set keys. site_map s k = Some True"
    by (simp add: site_map_eq)
  then have "filter (\<lambda>key. site_map s key = Some True) keys = keys"
    by (simp add: filter_id_conv)
  then show ?thesis
    by (simp add: getSetFromSlice_def Let_def foldl_append_if)
qed

lemma count_letters:
  "foldl (\<lambda>check e. if isLetter e then check + 1 else check) (c :: int) ss
     = c + int (length (filter isLetter ss))"
  by (induction ss arbitrary: c) auto

lemma max_loop:
  "foldl (\<lambda>(i, m) e. (i + 1, if i = 0 \<or> e > m then e else m)) (i0 :: nat, m0 :: char) ss
     = (i0 + length ss, if ss = [] then m0 else if i0 = 0 then Max (set ss) else Max (insert m0 (set ss)))"
proof (induction ss arbitrary: i0 m0)
  case Nil
  then show ?case by simp
next
  case (Cons e ss)
  show ?case
  proof (cases ss)
    case Nil
    then show ?thesis by (auto simp: max_def)
  next
    case (Cons e' ss')
    then have ne: "ss \<noteq> []" by simp
    have fin: "finite (set ss)" by simp
    show ?thesis
      using Cons.IH [of "i0 + 1"] ne
      by (auto simp: Max_insert [OF fin] max_def insert_commute)
  qed
qed

text \<open>
  C3: for a non-empty column, whatever the order in which the set of its distinct bytes
  is enumerated, \<open>getNucFromSite\<close> returns \<open>N\<close> when the column holds more than one
  distinct letter, and otherwise the numerically largest byte of the column. So a column
  with \<open>A\<close> and \<open>C\<close> gives \<open>N\<close>, one with \<open>A\<close> and \<open>*\<close> gives \<open>A\<close>, and one with \<open>*\<close> and \<open>-\<close>
  gives \<open>-\<close>.
\<close>

theorem C3_getNucFromSite_consensus:
  assumes "s \<noteq> []" and "range_order (site_map s) keys"
  shows "getNucFromSite keys s =
           (if 1 < card {b \<in> set s. isLetter b} then CHR ''N'' else Max (set s))"
proof -
  from assms(2) have ss: "getSetFromSlice keys s = keys" by (rule getSetFromSlice_eq)
  from assms(2) have d: "distinct keys" and st: "set keys = set s"
    by (simp_all add: range_order_def dom_site_map)
  from assms(1) st have ne: "keys \<noteq> []" by auto
  have "length (filter isLetter keys) = card (set (filter isLetter keys))"
    using d distinct_card [of "filter isLetter keys"] by (simp del: set_filter)
  also have "set (filter isLetter keys) = {b \<in> set s. isLetter b}"
    using st by auto
  finally have cnt: "length (filter isLetter keys) = card {b \<in> set s. isLetter b}" .
  have chk: "foldl (\<lambda>check e. if isLetter e then check + 1 else check) (0 :: int) keys
      = int (card {b \<in> set s. isLetter b})"
    using count_letters [of 0 keys] cnt by simp
  have mx: "snd (foldl (\<lambda>(i, m) e. (i + 1, if i = 0 \<or> e > m then e else m))
                     (0 :: nat, CHR 0x00) keys) = Max (set s)"
    using max_loop [of 0 "CHR 0x00" keys] ne st by simp
  show ?thesis
    unfolding getNucFromSite_def Let_def ss chk mx by simp
qed

theorem C3_getNucFromSite_consensus_witness:
  "getNucFromSite ''CA'' ''ACA'' = CHR ''N''
   \<and> getNucFromSite ''*A'' ''A*'' = CHR ''A''
   \<and> getNucFromSite ''*-'' ''*-'' = CHR ''-''"
proof -
  have r1: "range_order (site_map ''ACA'') ''CA''"
    and r2: "range_order (site_map ''A*'') ''*A''"
    and r3: "range_order (site_map ''*-'') ''*-''"
    by (auto simp: range_order_def dom_site_map)
  have l1: "{b \<in> set ''ACA''. isLetter b} = {CHR ''A'', CHR ''C''}"
    and l2: "{b \<in> set ''A*''. isLetter b} = {CHR ''A''}"
    and l3: "{b \<in> set ''*-''. isLetter b} = {}"
    by (auto simp: isLetter_examples)
  have "getNucFromSite ''CA'' ''ACA'' = CHR ''N''"
    using C3_getNucFromSite_consensus [OF _ r1, unfolded l1] by simp
  moreover have "getNucFromSite ''*A'' ''A*'' = CHR ''A''"
    using C3_getNucFromSite_consensus [OF _ r2, unfolded l2] by simp
  moreover have "getNucFromSite ''*-'' ''*-'' = CHR ''-''"
    using C3_getNucFromSite_consensus [OF _ r3, unfolded l3] by simp
  ultimately show ?thesis by simp
qed

section \<open>C5: the query partitioner\<close>

lemma group_inv_first:
  "group_inv [x] (groupSamRecords_step
     \<lparr>samLineGroup = [], first = True, previous = [], chnl = []\<rparr> x)"
  by (simp add: group_inv_def groupSamRecords_step_def oneQueryBlock_def)

lemma group_invD:
  assumes "group_inv xs st"
  shows "\<not> first st" "oneQueryBlock (samLineGroup st)"
    "previous st = Name (hd (samLineGroup st))"
    "concat (chnl st) @ samLineGroup st = xs"
    "\<forall>b \<in> set (chnl st). oneQueryBlock b"
    "distinct_adj (map (\<lambda>b. Name (hd b)) (chnl st @ [samLineGroup st]))"
  using assms unfolding group_inv_def by blast+

lemma distinct_adj_new_name:
  assumes da: "distinct_adj (map (\<lambda>b. Name (hd b)) (chnl st @ [samLineGroup st]))"
   and "Name x \<noteq> previous st" and pv: "previous st = Name (hd (samLineGroup st))"
  shows "distinct_adj (map (\<lambda>b. Name (hd b)) (chnl st @ [samLineGroup st]) @ [Name x])"
  unfolding distinct_adj_append_iff using assms by (simp add: last_map)

lemma group_invI:
  "\<not> first st \<Longrightarrow> oneQueryBlock (samLineGroup st) \<Longrightarrow>
   previous st = Name (hd (samLineGroup st)) \<Longrightarrow>
   concat (chnl st) @ samLineGroup st = xs \<Longrightarrow>
   (\<forall>b \<in> set (chnl st). oneQueryBlock b) \<Longrightarrow>
   distinct_adj (map (\<lambda>b. Name (hd b)) (chnl st @ [samLineGroup st])) \<Longrightarrow>
   group_inv xs st"
  unfolding group_inv_def by blast

lemma step_new:
  "\<not> first st \<Longrightarrow> Name x \<noteq> previous st \<Longrightarrow>
   groupSamRecords_step st x
     = st\<lparr>chnl := chnl st @ [samLineGroup st], samLineGroup := [x], previous := Name x\<rparr>"
  by (simp add: groupSamRecords_step_def)

lemma step_same:
  "\<not> first st \<Longrightarrow> Name x = previous st \<Longrightarrow>
   groupSamRecords_step st x = st\<lparr>samLineGroup := samLineGroup st @ [x], previous := Name x\<rparr>"
  by (simp add: groupSamRecords_step_def)

lemma oneQueryBlock_single: "oneQueryBlock [x]"
  by (simp add: oneQueryBlock_def)

lemma oneQueryBlock_snoc:
  assumes "oneQueryBlock g" and "Name x = Name (hd g)"
  shows "oneQueryBlock (g @ [x])"
proof -
  from assms(1) have gne: "g \<noteq> []" and all: "\<And>y. y \<in> set g \<Longrightarrow> Name y = Name (hd g)"
    unfolding oneQueryBlock_def by blast+
  have hd: "hd (g @ [x]) = hd g" using gne by simp
  have "Name y = Name (hd (g @ [x]))" if "y \<in> set (g @ [x])" for y
  proof (cases "y = x")
    case True
    then show ?thesis unfolding hd using assms(2) by blast
  next
    case False
    with that have "y \<in> set g" by simp
    then show ?thesis unfolding hd by (rule all)
  qed
  then show ?thesis unfolding oneQueryBlock_def by blast
qed

lemma group_inv_step:
  assumes inv: "group_inv xs st"
  shows "group_inv (xs @ [x]) (groupSamRecords_step st x)"
proof -
  let ?nm = "\<lambda>b. Name (hd b)"
  note f = group_invD [OF inv]
  from f(2) have gne: "samLineGroup st \<noteq> []" unfolding oneQueryBlock_def by blast
  show ?thesis
  proof (cases "Name x \<noteq> previous st")
    case True
    let ?st = "st\<lparr>chnl := chnl st @ [samLineGroup st], samLineGroup := [x],
      previous := Name x\<rparr>"
    have da: "distinct_adj (map ?nm (chnl st @ [samLineGroup st]) @ [Name x])"
      using f(6) True f(3) by (rule distinct_adj_new_name)
    have eq: "map ?nm (chnl ?st @ [samLineGroup ?st])
        = map ?nm (chnl st @ [samLineGroup st]) @ [Name x]"
      by simp
    show ?thesis
      unfolding step_new [OF f(1) True]
    proof (rule group_invI)
      show "\<not> first ?st" using f(1) by simp
      show "oneQueryBlock (samLineGroup ?st)" by (simp add: oneQueryBlock_single)
      show "previous ?st = Name (hd (samLineGroup ?st))" by simp
      show "concat (chnl ?st) @ samLineGroup ?st = xs @ [x]" using f(4) by simp
      show "\<forall>b \<in> set (chnl ?st). oneQueryBlock b" using f(2) f(5) by simp
      show "distinct_adj (map ?nm (chnl ?st @ [samLineGroup ?st]))"
        unfolding eq by (rule da)
    qed
  next
    case False
    then have same: "Name x = previous st" by simp
    let ?st = "st\<lparr>samLineGroup := samLineGroup st @ [x], previous := Name x\<rparr>"
    have hd: "hd (samLineGroup st @ [x]) = hd (samLineGroup st)" using gne by simp
    have eq: "map ?nm (chnl ?st @ [samLineGroup ?st]) = map ?nm (chnl st @ [samLineGroup st])"
      using hd by simp
    have blk: "oneQueryBlock (samLineGroup st @ [x])"
      using f(2) same [unfolded f(3)] by (rule oneQueryBlock_snoc)
    show ?thesis
      unfolding step_same [OF f(1) same]
    proof (rule group_invI)
      show "\<not> first ?st" using f(1) by simp
      show "oneQueryBlock (samLineGroup ?st)" using blk by simp
      show "previous ?st = Name (hd (samLineGroup ?st))" using same f(3) hd by simp
      show "concat (chnl ?st) @ samLineGroup ?st = xs @ [x]" using f(4) by simp
      show "\<forall>b \<in> set (chnl ?st). oneQueryBlock b" using f(5) by simp
      show "distinct_adj (map ?nm (chnl ?st @ [samLineGroup ?st]))"
        unfolding eq by (rule f(6))
    qed
  qed
qed

lemma group_inv_foldl:
  "xs \<noteq> [] \<Longrightarrow>
   group_inv xs (foldl groupSamRecords_step
     \<lparr>samLineGroup = [], first = True, previous = [], chnl = []\<rparr> xs)"
proof (induction xs rule: rev_induct)
  case Nil
  then show ?case by simp
next
  case (snoc x xs)
  show ?case
  proof (cases "xs = []")
    case True
    then show ?thesis using group_inv_first [of x] by simp
  next
    case False
    from snoc.IH [OF False] show ?thesis
      by (simp add: group_inv_step)
  qed
qed

text \<open>
  On a stream with at least one record the partitioner behaves as specified: the blocks
  sent are the stream cut into pieces, every block is non-empty with a single query
  name, and a new block starts exactly where the name changes.
\<close>

lemma groupSamRecords_nonempty_stream:
  assumes "stream \<noteq> []"
  shows "concat (groupSamRecords stream) = stream
    \<and> (\<forall>b \<in> set (groupSamRecords stream). oneQueryBlock b)
    \<and> distinct_adj (map (\<lambda>b. Name (hd b)) (groupSamRecords stream))"
proof -
  let ?st = "foldl groupSamRecords_step
     \<lparr>samLineGroup = [], first = True, previous = [], chnl = []\<rparr> stream"
  from group_inv_foldl [OF assms] have inv: "group_inv stream ?st" .
  have eq: "groupSamRecords stream = chnl ?st @ [samLineGroup ?st]"
    by (simp add: groupSamRecords_def Let_def)
  from inv show ?thesis unfolding eq group_inv_def by simp
qed

text \<open>
  C5 holds for every stream with at least one record, but not for the empty stream: the
  send after the loop is unconditional, so a file without alignment records yields one
  block with no record in it. \<open>getSeqFromBlock\<close> relies on the invariant of the claim: on
  that block it evaluates \<^verbatim>\<open>block[0]\<close> and panics.
\<close>

theorem C5_empty_stream_emits_empty_block:
  "groupSamRecords [] = [[]]
   \<and> getSeqFromBlock keyss (hd (groupSamRecords [])) L = Inl IndexOutOfRange"
  by (simp add: groupSamRecords_def getSeqFromBlock_def)

section \<open>C7: the report writer\<close>

lemma collect_keys: "foldl (\<lambda>keys k. keys @ [k]) acc korder = acc @ korder"
  by (induction korder arbitrary: acc) simp_all

lemma inner_rows:
  "foldl (\<lambda>written v. if P v then written else written @ [row v]) written vs
     = written @ map row (filter (\<lambda>v. \<not> P v) vs)"
  by (induction vs arbitrary: written) simp_all

lemma rows_fold:
  "foldl (\<lambda>written k.
      foldl (\<lambda>written v. if P k v then written else written @ [row k v]) written (vo k))
     written keys
   = written @ concat (map (\<lambda>k. map (row k) (filter (\<lambda>v. \<not> P k v) (vo k))) keys)"
  by (induction keys arbitrary: written) (simp_all add: inner_rows)

lemma writeInsMap_entries:
  "writeInsMap insmap korder vorder threshold
     = insHeader # map (writtenRow (\<lambda>v. v)) (entriesOf insmap vorder threshold (sort korder))"
  unfolding writeInsMap_def Let_def collect_keys rows_fold
  by (simp add: insHeader_def entriesOf_def writtenRow_def map_concat comp_def)

lemma writeDelMap_entries:
  "writeDelMap delmap korder vorder threshold
     = delHeader # map (writtenRow Itoa) (entriesOf delmap vorder threshold (sort korder))"
  unfolding writeDelMap_def Let_def collect_keys rows_fold
  by (simp add: delHeader_def entriesOf_def writtenRow_def map_concat comp_def)

lemma entriesOf_fst:
  "set (map fst (entriesOf m vorder threshold keys)) \<subseteq> set keys"
  by (auto simp: entriesOf_def)

lemma entriesOf_Cons:
  "entriesOf m vorder threshold (k # keys)
     = map (\<lambda>v. (k, v, names_at m k v))
         (filter (\<lambda>v. \<not> int (length (names_at m k v)) < threshold) (vorder k))
       @ entriesOf m vorder threshold keys"
  by (simp add: entriesOf_def)

lemma entriesOf_sorted:
  "sorted keys \<Longrightarrow> sorted (map fst (entriesOf m vorder threshold keys))"
proof (induction keys)
  case Nil
  then show ?case by (simp add: entriesOf_def)
next
  case (Cons k keys)
  have le: "\<forall>y \<in> set (map fst (entriesOf m vorder threshold keys)). k \<le> y"
    using entriesOf_fst [of m vorder threshold keys] Cons.prems by auto
  have srt: "sorted (map fst (entriesOf m vorder threshold keys))"
    using Cons by simp
  have hd: "map fst (map (\<lambda>v. (k, v, names_at m k v)) vs) = replicate (length vs) k" for vs
    by (induction vs) simp_all
  show ?case
    unfolding entriesOf_Cons map_append hd
    using le srt by (simp add: sorted_append)
qed

lemma entriesOf_distinct:
  "distinct keys \<Longrightarrow> \<forall>k \<in> set keys. distinct (vorder k) \<Longrightarrow>
   distinct (map (\<lambda>(k, v, names). (k, v)) (entriesOf m vorder threshold keys))"
proof (induction keys)
  case Nil
  then show ?case by (simp add: entriesOf_def)
next
  case (Cons k keys)
  have ih: "distinct (map (\<lambda>(k, v, names). (k, v)) (entriesOf m vorder threshold keys))"
    using Cons by simp
  have notk: "\<forall>e \<in> set (entriesOf m vorder threshold keys). fst e \<noteq> k"
    using entriesOf_fst [of m vorder threshold keys] Cons.prems(1) by auto
  have dk: "distinct (vorder k)" using Cons.prems(2) by simp
  have hd: "map (\<lambda>(k, v, names). (k, v)) (map (\<lambda>v. (k, v, names_at m k v)) vs) = map (Pair k) vs" for vs
    by (induction vs) simp_all
  have d1: "distinct (map (Pair k) (filter (\<lambda>v. \<not> int (length (names_at m k v)) < threshold) (vorder k)))"
    using dk by (simp add: distinct_map inj_on_def)
  show ?case
    unfolding entriesOf_Cons map_append hd
    using ih notk d1 by (auto simp: distinct_append)
qed

lemma entriesOf_set:
  assumes "range_orders m korder vorder" and "set keys = set korder"
  shows "set (entriesOf m vorder threshold keys) = reportEntries m threshold"
proof -
  from assms(1) have dom: "set korder = dom m"
    and inner: "\<And>k inner. m k = Some inner \<Longrightarrow> set (vorder k) = dom inner"
    by (simp_all add: range_orders_def range_order_def)
  show ?thesis
  proof (intro set_eqI iffI)
    fix e assume "e \<in> set (entriesOf m vorder threshold keys)"
    then obtain k v where e: "e = (k, v, names_at m k v)" and k: "k \<in> set keys"
      and v: "v \<in> set (vorder k)" and th: "\<not> int (length (names_at m k v)) < threshold"
      by (auto simp: entriesOf_def)
    from k assms(2) dom obtain inner where mk: "m k = Some inner" by auto
    from inner [OF mk] v obtain names where iv: "inner v = Some names" by auto
    from mk iv have "names_at m k v = names" by (simp add: names_at_def)
    with e mk iv th show "e \<in> reportEntries m threshold"
      by (auto simp: reportEntries_def)
  next
    fix e assume "e \<in> reportEntries m threshold"
    then obtain k v names inner where e: "e = (k, v, names)" and mk: "m k = Some inner"
      and iv: "inner v = Some names" and th: "threshold \<le> int (length names)"
      by (auto simp: reportEntries_def)
    from mk dom assms(2) have k: "k \<in> set keys" by auto
    from inner [OF mk] iv have v: "v \<in> set (vorder k)" by auto
    from mk iv have na: "names_at m k v = names" by (simp add: names_at_def)
    from k v na th have "(k, v, names) \<in> set (entriesOf m vorder threshold keys)"
      by (force simp: entriesOf_def)
    with e show "e \<in> set (entriesOf m vorder threshold keys)" by simp
  qed
qed

lemma entriesOf_report:
  assumes "range_orders m korder vorder"
  shows "sorted (map fst (entriesOf m vorder threshold (sort korder)))
    \<and> distinct (map (\<lambda>(k, v, names). (k, v)) (entriesOf m vorder threshold (sort korder)))
    \<and> set (entriesOf m vorder threshold (sort korder)) = reportEntries m threshold"
proof -
  from assms have dk: "distinct korder" and dom: "set korder = dom m"
    and inner: "\<And>k inner. m k = Some inner \<Longrightarrow> distinct (vorder k)"
    by (simp_all add: range_orders_def range_order_def)
  have "\<forall>k \<in> set (sort korder). distinct (vorder k)"
    using dom inner by auto
  moreover have "distinct (sort korder)" using dk by simp
  ultimately show ?thesis
    using entriesOf_sorted [of "sort korder" m vorder threshold]
      entriesOf_distinct [of "sort korder" vorder m threshold]
      entriesOf_set [OF assms, of "sort korder" threshold]
    by simp
qed

lemma distinct_singleton_set:
  assumes "distinct (map f rows)" and "set rows = {a}"
  shows "rows = [a]"
proof -
  from assms(1) have d: "distinct rows" by (simp add: distinct_map)
  have "length rows = card (set rows)" using distinct_card [OF d] by simp
  also have "\<dots> = 1" unfolding assms(2) by simp
  finally have "length rows = 1" .
  then obtain b where "rows = [b]" by (cases rows) auto
  with assms(2) show ?thesis by simp
qed

lemma Itoa_examples: "Itoa 15 = ''15''" "Itoa 18 = ''18''" "Itoa 4 = ''4''"
  by (simp_all add: Itoa_def digitChar_def)

text \<open>Keys are written in ascending order and one-based, whatever the order of the map.\<close>

lemma writeInsMap_two_keys:
  "writeInsMap [20 \<mapsto> [''G'' \<mapsto> [''s1'', ''s2'']], 14 \<mapsto> [''AC'' \<mapsto> [''s3'']]] [20, 14]
     (\<lambda>k. if k = 20 then [''G''] else [''AC'']) 1
   = [insHeader, ''15'' @ tab @ ''AC'' @ tab @ ''s3'' @ newline,
      ''21'' @ tab @ ''G'' @ tab @ ''s1|s2'' @ newline]"
  by (simp add: writeInsMap_def names_at_def goAdd_def wrap64_def Itoa_def digitChar_def
      insHeader_def)

text \<open>
  For every map, every threshold and every enumeration order: the rows written are the
  entries that reach the threshold, each once, in ascending order of the primary key,
  with the primary key printed as the 64-bit sum \<open>key + 1\<close>.
\<close>

lemma report_writer_rows:
  assumes "range_orders insmap korder vorder" and "range_orders delmap korder' vorder'"
  shows "\<exists>rows. writeInsMap insmap korder vorder threshold
                 = insHeader # map (writtenRow (\<lambda>v. v)) rows
         \<and> sorted (map fst rows)
         \<and> distinct (map (\<lambda>(k, v, names). (k, v)) rows)
         \<and> set rows = reportEntries insmap threshold"
    and "\<exists>rows. writeDelMap delmap korder' vorder' threshold
                 = delHeader # map (writtenRow Itoa) rows
         \<and> sorted (map fst rows)
         \<and> distinct (map (\<lambda>(k, v, names). (k, v)) rows)
         \<and> set rows = reportEntries delmap threshold"
  using entriesOf_report [OF assms(1), of threshold] entriesOf_report [OF assms(2), of threshold]
    writeInsMap_entries [of insmap korder vorder threshold]
    writeDelMap_entries [of delmap korder' vorder' threshold]
  by blast+

text \<open>Below the largest key the sum does not wrap, and the row is the one of the report.\<close>

lemma writtenRow_below_max:
  assumes "keysBelowMax m" and "range_orders m korder vorder"
  shows "map (writtenRow fmt) (entriesOf m vorder threshold (sort korder))
           = map (reportRow fmt) (entriesOf m vorder threshold (sort korder))"
proof (rule map_cong [OF refl])
  fix e assume e: "e \<in> set (entriesOf m vorder threshold (sort korder))"
  obtain k v names where eq: "e = (k, v, names)" by (cases e)
  from e eq have "k \<in> set (map fst (entriesOf m vorder threshold (sort korder)))"
    by force
  with entriesOf_fst [of m vorder threshold "sort korder"] have "k \<in> set korder" by auto
  with assms(2) have "k \<in> dom m" by (simp add: range_orders_def range_order_def)
  with assms(1) have "int64 (k + 1)" by (simp add: keysBelowMax_def)
  then show "writtenRow fmt e = reportRow fmt e"
    by (simp add: eq writtenRow_def reportRow_def goAdd_id)
qed

text \<open>
  C7, as stated, fails at the largest primary key: \<^verbatim>\<open>k + 1\<close> is a sum of Go \<^verbatim>\<open>int\<close>s, so for
  the key \<open>9223372036854775807\<close> the row carries \<open>-9223372036854775808\<close> and not the key
  plus one.
\<close>

theorem C7_largest_key_counterexample:
  "writeInsMap [9223372036854775807 \<mapsto> [''A'' \<mapsto> [''s1'']]] [9223372036854775807]
     (\<lambda>k. [''A'']) 1
   = [insHeader, ''-9223372036854775808'' @ tab @ ''A'' @ tab @ ''s1'' @ newline]"
  by (simp add: writeInsMap_def names_at_def goAdd_def wrap64_def Itoa_def digitChar_def
      insHeader_def)

text \<open>
  C7, amended: for every report map whose primary keys are Go \<^verbatim>\<open>int\<close>s below the largest
  one, every threshold and every order in which the Go maps are enumerated, each writer
  writes its header and then one row per entry whose list of sample names has at least
  \<open>threshold\<close> elements, those entries and no others, each once; the primary keys of the
  rows ascend; a row prints the primary key plus one, the secondary key and the names
  joined with \<open>|\<close>. An entry with two samples is omitted at threshold 3 and written at
  threshold 2.
\<close>

theorem C7_report_writer:
  "(range_orders insmap korder vorder \<longrightarrow> keysBelowMax insmap \<longrightarrow>
      (\<exists>rows. writeInsMap insmap korder vorder threshold
                 = insHeader # map (reportRow (\<lambda>v. v)) rows
         \<and> sorted (map fst rows)
         \<and> distinct (map (\<lambda>(k, v, names). (k, v)) rows)
         \<and> set rows = reportEntries insmap threshold))
   \<and> (range_orders delmap korder' vorder' \<longrightarrow> keysBelowMax delmap \<longrightarrow>
      (\<exists>rows. writeDelMap delmap korder' vorder' threshold
                 = delHeader # map (reportRow Itoa) rows
         \<and> sorted (map fst rows)
         \<and> distinct (map (\<lambda>(k, v, names). (k, v)) rows)
         \<and> set rows = reportEntries delmap threshold))"
proof (intro conjI impI)
  assume ro: "range_orders insmap korder vorder" and kb: "keysBelowMax insmap"
  have "writeInsMap insmap korder vorder threshold
      = insHeader # map (reportRow (\<lambda>v. v)) (entriesOf insmap vorder threshold (sort korder))"
    by (simp only: writeInsMap_entries writtenRow_below_max [OF kb ro])
  with entriesOf_report [OF ro, of threshold]
  show "\<exists>rows. writeInsMap insmap korder vorder threshold
                 = insHeader # map (reportRow (\<lambda>v. v)) rows
         \<and> sorted (map fst rows)
         \<and> distinct (map (\<lambda>(k, v, names). (k, v)) rows)
         \<and> set rows = reportEntries insmap threshold"
    by blast
next
  assume ro: "range_orders delmap korder' vorder'" and kb: "keysBelowMax delmap"
  have "writeDelMap delmap korder' vorder' threshold
      = delHeader # map (reportRow Itoa) (entriesOf delmap vorder' threshold (sort korder'))"
    by (simp only: writeDelMap_entries writtenRow_below_max [OF kb ro])
  with entriesOf_report [OF ro, of threshold]
  show "\<exists>rows. writeDelMap delmap korder' vorder' threshold
                 = delHeader # map (reportRow Itoa) rows
         \<and> sorted (map fst rows)
         \<and> distinct (map (\<lambda>(k, v, names). (k, v)) rows)
         \<and> set rows = reportEntries delmap threshold"
    by blast
qed

theorem C7_report_writer_witness:
  "writeInsMap [14 \<mapsto> [''AC'' \<mapsto> [''s1'', ''s2'']]] [14] (\<lambda>k. [''AC'']) 3 = [insHeader]
   \<and> writeInsMap [14 \<mapsto> [''AC'' \<mapsto> [''s1'', ''s2'']]] [14] (\<lambda>k. [''AC'']) 2
       = [insHeader, ''15'' @ tab @ ''AC'' @ tab @ ''s1|s2'' @ newline]
   \<and> writeDelMap [17 \<mapsto> [4 \<mapsto> [''s1'', ''s2'']]] [17] (\<lambda>k. [4]) 3 = [delHeader]
   \<and> writeDelMap [17 \<mapsto> [4 \<mapsto> [''s1'', ''s2'']]] [17] (\<lambda>k. [4]) 2
       = [delHeader, ''18'' @ tab @ ''4'' @ tab @ ''s1|s2'' @ newline]"
proof -
  let ?im = "[14 \<mapsto> [''AC'' \<mapsto> [''s1'', ''s2'']]] :: int \<rightharpoonup> (string \<rightharpoonup> string list)"
  let ?dm = "[17 \<mapsto> [4 \<mapsto> [''s1'', ''s2'']]] :: int \<rightharpoonup> (int \<rightharpoonup> string list)"
  have ri: "range_orders ?im [14] (\<lambda>k. [''AC''])"
    by (auto simp: range_orders_def range_order_def split: if_splits)
  have rd: "range_orders ?dm [17] (\<lambda>k. [4])"
    by (auto simp: range_orders_def range_order_def split: if_splits)
  have ki: "keysBelowMax ?im" and kd: "keysBelowMax ?dm"
    by (simp_all add: keysBelowMax_def int64_def)
  have ei3: "reportEntries ?im 3 = {}" and ed3: "reportEntries ?dm 3 = {}"
    by (auto simp: reportEntries_def split: if_splits)
  have ei2: "reportEntries ?im 2 = {(14, ''AC'', [''s1'', ''s2''])}"
    and ed2: "reportEntries ?dm 2 = {(17, 4, [''s1'', ''s2''])}"
    by (auto simp: reportEntries_def split: if_splits)
  have i3: "writeInsMap ?im [14] (\<lambda>k. [''AC'']) 3 = [insHeader]"
    using C7_report_writer [of ?im "[14]" "\<lambda>k. [''AC'']" 3 ?dm "[17]" "\<lambda>k. [4]"] ri ki
    unfolding ei3 by auto
  have d3: "writeDelMap ?dm [17] (\<lambda>k. [4]) 3 = [delHeader]"
    using C7_report_writer [of ?im "[14]" "\<lambda>k. [''AC'']" 3 ?dm "[17]" "\<lambda>k. [4]"] rd kd
    unfolding ed3 by auto
  from C7_report_writer [of ?im "[14]" "\<lambda>k. [''AC'']" 2 ?dm "[17]" "\<lambda>k. [4]"] ri rd ki kd
  obtain rows rows' where
    a: "writeInsMap ?im [14] (\<lambda>k. [''AC'']) 2 = insHeader # map (reportRow (\<lambda>v. v)) rows"
      "distinct (map (\<lambda>(k, v, names). (k, v)) rows)" "set rows = reportEntries ?im 2"
    and b: "writeDelMap ?dm [17] (\<lambda>k. [4]) 2 = delHeader # map (reportRow Itoa) rows'"
      "distinct (map (\<lambda>(k, v, names). (k, v)) rows')" "set rows' = reportEntries ?dm 2"
    by blast
  from a(2) a(3) have "rows = [(14, ''AC'', [''s1'', ''s2''])]"
    unfolding ei2 by (rule distinct_singleton_set)
  with a(1) have i2: "writeInsMap ?im [14] (\<lambda>k. [''AC'']) 2
       = [insHeader, ''15'' @ tab @ ''AC'' @ tab @ ''s1|s2'' @ newline]"
    by (simp add: reportRow_def Itoa_examples)
  from b(2) b(3) have "rows' = [(17, 4, [''s1'', ''s2''])]"
    unfolding ed2 by (rule distinct_singleton_set)
  with b(1) have d2: "writeDelMap ?dm [17] (\<lambda>k. [4]) 2
       = [delHeader, ''18'' @ tab @ ''4'' @ tab @ ''s1|s2'' @ newline]"
    by (simp add: reportRow_def Itoa_examples)
  from i3 i2 d3 d2 show ?thesis by blast
qed

end
